theory Spec2Isabelle
  imports Complex_Main "HOL-Library.Char_ord" "HOL-Library.List_Lexorder"
begin

section \<open>Outbound-call resilience layer: rate limiter and response cache\<close>

text \<open>
  The development embeds \<^verbatim>\<open>phineas/tools/crypto/rate_limiter.py\<close> and
  \<^verbatim>\<open>phineas/tools/crypto/cache.py\<close>.
  \<^item> Python floats (timestamps, token levels) are idealised as \<^typ>\<open>real\<close>; Python ints
    are \<^typ>\<open>int\<close>, or \<^typ>\<open>nat\<close> for counters that only count up from zero.
  \<^item> The clock is explicit. An operation that reads \<^verbatim>\<open>time.time()\<close> takes its
    reads as arguments; \<^verbatim>\<open>acquire\<close>, which sleeps, carries a simulated clock from
    its backoff check on.
  \<^item> A raise is a result \<open>Inl\<close> of a sum type, with the state as it was at the raise.
  \<^item> Locks are not modelled: each operation is one atomic step on the state it guards,
    and no other thread runs in between.
\<close>

subsection \<open>TokenBucket\<close>

record token_bucket =
  rate :: real
  capacity :: real
  tokens :: real
  last_update :: real

text \<open>\<^verbatim>\<open>TokenBucket.__init__(rate, capacity)\<close>; \<open>now\<close> is the clock read of the constructor.\<close>

definition TokenBucket :: "real \<Rightarrow> real \<Rightarrow> real \<Rightarrow> token_bucket" where
  "TokenBucket r c now = \<lparr>rate = r, capacity = c, tokens = c, last_update = now\<rparr>"

text \<open>\<^verbatim>\<open>TokenBucket.consume(tokens)\<close>, with \<open>now\<close> the clock read at its first line.
  The result is the returned flag and the bucket after the call.\<close>

definition consume :: "int \<Rightarrow> real \<Rightarrow> token_bucket \<Rightarrow> bool \<times> token_bucket" where
  "consume n now b =
     (let elapsed = now - last_update b;
          b1 = b\<lparr>tokens := min (capacity b) (tokens b + elapsed * rate b)\<rparr>;
          b2 = b1\<lparr>last_update := now\<rparr>
      in if tokens b2 \<ge> of_int n
         then (True, b2\<lparr>tokens := tokens b2 - of_int n\<rparr>)
         else (False, b2))"

datatype py_error = ValueError | KeyError | ZeroDivisionError

text \<open>\<^verbatim>\<open>TokenBucket.wait_time()\<close>. The division raises when \<open>rate\<close> is zero.\<close>

definition wait_time :: "token_bucket \<Rightarrow> py_error + real" where
  "wait_time b =
     (if tokens b \<ge> 1 then Inr 0
      else if rate b = 0 then Inl ZeroDivisionError
      else Inr ((1 - tokens b) / rate b))"

text \<open>A run of \<open>consume\<close> calls on one bucket. Each call is given as the time elapsed
  since the previous clock read and the number of tokens asked for.\<close>

fun consume_seq :: "token_bucket \<Rightarrow> (real \<times> int) list \<Rightarrow> token_bucket" where
  "consume_seq b [] = b"
| "consume_seq b ((e, n) # ops) = consume_seq (snd (consume n (last_update b + e) b)) ops"

text \<open>The refill update alone, as the specification words it: tokens raised by
  \<open>elapsed * rate\<close> capped at capacity, and the last refill set to now.\<close>

definition refill :: "real \<Rightarrow> token_bucket \<Rightarrow> token_bucket" where
  "refill now b =
     b\<lparr>tokens := min (capacity b) (tokens b + (now - last_update b) * rate b),
       last_update := now\<rparr>"

subsection \<open>RateLimiter\<close>

text \<open>
  The limiter holds three dicts keyed by service name: the buckets, the backoff deadlines
  and the waiter semaphores. A semaphore is its counter of free slots. A configured limit
  is any Python value; the constructor accepts ints and floats.
\<close>

datatype py_value = PyInt int | PyFloat real | PyOther

fun is_numeric :: "py_value \<Rightarrow> bool" where
  "is_numeric (PyInt _) = True"
| "is_numeric (PyFloat _) = True"
| "is_numeric PyOther = False"

fun num :: "py_value \<Rightarrow> real" where
  "num (PyInt i) = of_int i"
| "num (PyFloat x) = x"
| "num PyOther = 0"

record rate_limiter =
  buckets :: "string \<rightharpoonup> token_bucket"
  backoff_until :: "string \<rightharpoonup> real"
  waiters :: "string \<rightharpoonup> nat"

definition API_LIMITS :: "(string \<times> py_value) list" where
  "API_LIMITS =
     [(''coingecko'', PyInt 30), (''coindesk'', PyInt 50), (''kraken'', PyInt 15),
      (''coinbase'', PyInt 10)]"

definition MAX_WAITERS_PER_API :: nat where
  "MAX_WAITERS_PER_API = 100"

definition MIN_SLEEP :: real where
  "MIN_SLEEP = 1 / 100"

definition MAX_TIMEOUT :: real where
  "MAX_TIMEOUT = 300"

text \<open>\<^verbatim>\<open>self.limits = limits or self.API_LIMITS\<close>: \<open>None\<close> and the empty dict are falsy.\<close>

definition effective_limits :: "(string \<times> py_value) list option \<Rightarrow> (string \<times> py_value) list" where
  "effective_limits limits =
     (case limits of None \<Rightarrow> API_LIMITS | Some [] \<Rightarrow> API_LIMITS | Some l \<Rightarrow> l)"

text \<open>The validation loop of \<^verbatim>\<open>RateLimiter.__init__\<close>: the first bad limit raises.\<close>

fun validate_limits :: "(string \<times> py_value) list \<Rightarrow> py_error option" where
  "validate_limits [] = None"
| "validate_limits ((api_name, rpm) # rest) =
     (if \<not> is_numeric rpm then Some ValueError
      else if num rpm \<le> 0 then Some ValueError
      else if num rpm > 10000 then Some ValueError
      else validate_limits rest)"

text \<open>The loop that creates the buckets, in dict order. \<open>now\<close> is the clock read of the
  bucket constructors.\<close>

fun create_buckets :: "real \<Rightarrow> (string \<times> py_value) list \<Rightarrow> rate_limiter \<Rightarrow> rate_limiter" where
  "create_buckets now [] s = s"
| "create_buckets now ((api_name, rpm) # rest) s =
     (let rate = num rpm / 60;
          capacity = min 5 (num rpm / 12)
      in create_buckets now rest
           (s\<lparr>buckets := (buckets s)(api_name \<mapsto> TokenBucket rate capacity now),
              backoff_until := (backoff_until s)(api_name \<mapsto> 0),
              waiters := (waiters s)(api_name \<mapsto> MAX_WAITERS_PER_API)\<rparr>))"

text \<open>\<^verbatim>\<open>RateLimiter.__init__(limits)\<close>\<close>

definition RateLimiter :: "real \<Rightarrow> (string \<times> py_value) list option \<Rightarrow> py_error + rate_limiter" where
  "RateLimiter now limits =
     (case validate_limits (effective_limits limits) of
        Some e \<Rightarrow> Inl e
      | None \<Rightarrow>
          Inr (create_buckets now (effective_limits limits)
                 \<lparr>buckets = Map.empty, backoff_until = Map.empty, waiters = Map.empty\<rparr>))"

text \<open>\<^verbatim>\<open>self.backoff_until.get(api_name, 0.0)\<close>\<close>

definition backoff_get :: "rate_limiter \<Rightarrow> string \<Rightarrow> real" where
  "backoff_get s api_name = (case backoff_until s api_name of Some t \<Rightarrow> t | None \<Rightarrow> 0)"

text \<open>
  The polling loop of \<^verbatim>\<open>acquire\<close> on the service's bucket. The clock is simulated:
  it stands still while the code runs and \<^verbatim>\<open>time.sleep(w)\<close> advances it by \<open>w\<close>.
  The result is the outcome, the clock at exit and the bucket. Other threads are not
  modelled.
\<close>

function acquire_loop ::
  "real \<Rightarrow> real \<Rightarrow> real \<Rightarrow> token_bucket \<Rightarrow> (py_error + bool) \<times> real \<times> token_bucket" where
  "acquire_loop timeout start_time now bucket =
     (if fst (consume 1 now bucket) then (Inr True, now, snd (consume 1 now bucket))
      else
        (let b1 = snd (consume 1 now bucket);
             elapsed = now - start_time
         in if elapsed \<ge> timeout then (Inr False, now, b1)
            else
              (case wait_time b1 of
                 Inl e \<Rightarrow> (Inl e, now, b1)
               | Inr w \<Rightarrow>
                   (let wt = max MIN_SLEEP (min w (timeout - elapsed))
                    in acquire_loop timeout start_time (if wt > 0 then now + wt else now) b1))))"
  by pat_completeness auto
termination
proof (relation "measure (\<lambda>(timeout, start_time, now, bucket).
                   nat \<lceil>(timeout - (now - start_time)) * 100\<rceil>)", goal_cases)
  case 1
  show ?case by simp
next
  case (2 timeout start_time now bucket b1 elapsed w wt)
  from 2 have later: "now - start_time < timeout" by simp
  from 2 have pos: "1 / 100 \<le> wt" by (simp add: MIN_SLEEP_def)
  let ?old = "(timeout - (now - start_time)) * 100"
  let ?new = "(timeout - (now + wt - start_time)) * 100"
  have "?new \<le> ?old - 1" using pos by simp
  then have "\<lceil>?new\<rceil> \<le> \<lceil>?old - 1\<rceil>" by (rule ceiling_mono)
  then have "\<lceil>?new\<rceil> < \<lceil>?old\<rceil>" by simp
  moreover have "0 < \<lceil>?old\<rceil>" using later by simp
  ultimately have "nat \<lceil>?new\<rceil> < nat \<lceil>?old\<rceil>" by linarith
  moreover have "0 < wt" using pos by simp
  ultimately show ?case by simp
qed

declare acquire_loop.simps [simp del]

text \<open>
  The \<^verbatim>\<open>try\<close> block of \<^verbatim>\<open>acquire\<close>: the backoff check, then the polling loop.
  The backoff check reads the clock twice: \<open>now\<close> is the read in the test
  \<^verbatim>\<open>backoff_time > time.time()\<close> (and the read of \<^verbatim>\<open>start_time\<close> just before
  it), \<open>t_wait\<close> is the later read in \<^verbatim>\<open>wait_time = backoff_time - time.time()\<close>.
  \<^verbatim>\<open>time.sleep\<close> raises \<^verbatim>\<open>ValueError\<close> on a negative length; otherwise it advances
  the clock by its argument. The bucket object is shared with the dict, so its final
  state is stored back.
\<close>

definition acquire_body ::
  "string \<Rightarrow> real \<Rightarrow> real \<Rightarrow> real \<Rightarrow> rate_limiter
     \<Rightarrow> (py_error + bool) \<times> real \<times> rate_limiter" where
  "acquire_body api_name timeout now t_wait s =
     (case buckets s api_name of
        None \<Rightarrow> (Inl KeyError, now, s)
      | Some bucket \<Rightarrow>
          (let start_time = now;
               backoff_time = backoff_get s api_name
           in if backoff_time > now
              then
                (let wait = backoff_time - t_wait
                 in if wait > timeout then (Inr False, t_wait, s)
                    else if wait < 0 then (Inl ValueError, t_wait, s)
                    else
                      (let r = acquire_loop timeout start_time (t_wait + wait) bucket
                       in (fst r, fst (snd r),
                           s\<lparr>buckets := (buckets s)(api_name \<mapsto> snd (snd r))\<rparr>)))
              else
                (let r = acquire_loop timeout start_time now bucket
                 in (fst r, fst (snd r),
                     s\<lparr>buckets := (buckets s)(api_name \<mapsto> snd (snd r))\<rparr>))))"

text \<open>\<^verbatim>\<open>Semaphore.release()\<close> on the service's semaphore.\<close>

definition release :: "string \<Rightarrow> rate_limiter \<Rightarrow> rate_limiter" where
  "release api_name s =
     (case waiters s api_name of
        None \<Rightarrow> s
      | Some free \<Rightarrow> s\<lparr>waiters := (waiters s)(api_name \<mapsto> Suc free)\<rparr>)"

text \<open>\<^verbatim>\<open>RateLimiter.acquire(api_name, timeout)\<close>, entered at clock \<open>now\<close>, with \<open>t_wait\<close>
  the second clock read of the backoff check. The result is the outcome (\<open>Inl\<close> for a
  raise), the clock at exit and the limiter.\<close>

definition acquire ::
  "string \<Rightarrow> real \<Rightarrow> real \<Rightarrow> real \<Rightarrow> rate_limiter
     \<Rightarrow> (py_error + bool) \<times> real \<times> rate_limiter" where
  "acquire api_name timeout now t_wait s =
     (if buckets s api_name = None then (Inl ValueError, now, s)
      else if timeout < 0 then (Inl ValueError, now, s)
      else
        (let timeout1 = (if timeout > MAX_TIMEOUT then MAX_TIMEOUT else timeout)
         in case waiters s api_name of
              None \<Rightarrow> (Inl KeyError, now, s)
            | Some free \<Rightarrow>
                if free = 0 then (Inr False, now, s)
                else
                  (let s1 = s\<lparr>waiters := (waiters s)(api_name \<mapsto> free - 1)\<rparr>;
                       r = acquire_body api_name timeout1 now t_wait s1
                   in (fst r, fst (snd r), release api_name (snd (snd r))))))"

text \<open>\<^verbatim>\<open>if retry_after:\<close> on an \<^verbatim>\<open>Optional[int]\<close>: \<open>None\<close> and \<open>0\<close> are falsy.\<close>

definition truthy :: "int option \<Rightarrow> bool" where
  "truthy retry_after = (case retry_after of None \<Rightarrow> False | Some r \<Rightarrow> r \<noteq> 0)"

text \<open>\<^verbatim>\<open>RateLimiter.report_rate_limit_error(api_name, retry_after)\<close>. The clock is read in
  the test of the active backoff (\<open>t_test\<close>), in the remaining duration (\<open>t_remaining\<close>) and in
  the final assignment (\<open>t_set\<close>).\<close>

definition report_rate_limit_error ::
  "real \<Rightarrow> real \<Rightarrow> real \<Rightarrow> string \<Rightarrow> int option \<Rightarrow> rate_limiter \<Rightarrow> rate_limiter" where
  "report_rate_limit_error t_test t_remaining t_set api_name retry_after s =
     (let backoff_seconds =
            (if truthy retry_after then of_int (the retry_after)
             else
               (let current_backoff = backoff_get s api_name
                in if current_backoff > t_test
                   then (let remaining = current_backoff - t_remaining
                         in min (remaining * 2) 300)
                   else 60))
      in s\<lparr>backoff_until := (backoff_until s)(api_name \<mapsto> t_set + backoff_seconds)\<rparr>)"

text \<open>\<^verbatim>\<open>RateLimiter.reset_backoff(api_name)\<close>\<close>

definition reset_backoff :: "string \<Rightarrow> rate_limiter \<Rightarrow> rate_limiter" where
  "reset_backoff api_name s = s\<lparr>backoff_until := (backoff_until s)(api_name \<mapsto> 0)\<rparr>"

text \<open>The calls a client can make on a limiter, each with its clock reads, and a
  limiter's state after one call.\<close>

datatype limiter_op =
  Acquire string real real real
| Report real real real string "int option"
| Reset string

fun apply_limiter_op :: "limiter_op \<Rightarrow> rate_limiter \<Rightarrow> rate_limiter" where
  "apply_limiter_op (Acquire api_name timeout now t_wait) s =
     snd (snd (acquire api_name timeout now t_wait s))"
| "apply_limiter_op (Report t_test t_remaining t_set api_name retry_after) s =
     report_rate_limit_error t_test t_remaining t_set api_name retry_after s"
| "apply_limiter_op (Reset api_name) s = reset_backoff api_name s"

text \<open>What the constructor sets up for every service and every call keeps: a positive
  refill rate and a waiter semaphore.\<close>

definition limiter_inv :: "rate_limiter \<Rightarrow> bool" where
  "limiter_inv s \<longleftrightarrow>
     (\<forall>api_name b. buckets s api_name = Some b \<longrightarrow> 0 < rate b \<and> waiters s api_name \<noteq> None)"

text \<open>A limit the validation loop rejects.\<close>

definition bad_limit :: "py_value \<Rightarrow> bool" where
  "bad_limit rpm \<longleftrightarrow> \<not> is_numeric rpm \<or> num rpm \<le> 0 \<or> num rpm > 10000"

subsection \<open>TTLCache\<close>

text \<open>
  The \<^verbatim>\<open>OrderedDict\<close> of the cache is an association list in recency order, least
  recently used first. A Python dict holds each key once, so the lists that arise have
  distinct keys; the operations below are total on all lists.
\<close>

type_synonym 'v ordered_dict = "(string \<times> 'v \<times> real) list"

definition od_contains :: "string \<Rightarrow> 'v ordered_dict \<Rightarrow> bool" where
  "od_contains k c = (k \<in> set (map fst c))"

text \<open>\<^verbatim>\<open>del d[k]\<close>. Every call site has checked that the key is present.\<close>

definition od_del :: "string \<Rightarrow> 'v ordered_dict \<Rightarrow> 'v ordered_dict" where
  "od_del k c = filter (\<lambda>e. fst e \<noteq> k) c"

text \<open>\<^verbatim>\<open>d[k] = v\<close>: an existing key keeps its position, a new key goes last.\<close>

definition od_setitem :: "string \<Rightarrow> 'v \<times> real \<Rightarrow> 'v ordered_dict \<Rightarrow> 'v ordered_dict" where
  "od_setitem k v c =
     (if od_contains k c then map (\<lambda>e. if fst e = k then (k, v) else e) c
      else c @ [(k, v)])"

text \<open>\<^verbatim>\<open>d.move_to_end(k)\<close>. Both call sites hold the key; on a missing key (where
  Python raises) the list is returned as it is.\<close>

definition od_move_to_end :: "string \<Rightarrow> 'v ordered_dict \<Rightarrow> 'v ordered_dict" where
  "od_move_to_end k c =
     (case map_of c k of None \<Rightarrow> c | Some v \<Rightarrow> od_del k c @ [(k, v)])"

record 'v ttl_cache =
  max_size :: int
  default_ttl :: int
  cache :: "'v ordered_dict"
  hits :: nat
  misses :: nat
  evictions :: nat

definition MAX_TTL :: int where
  "MAX_TTL = 86400 * 7"

text \<open>\<^verbatim>\<open>TTLCache.__init__(max_size, default_ttl)\<close>\<close>

definition TTLCache :: "int \<Rightarrow> int \<Rightarrow> py_error + 'v ttl_cache" where
  "TTLCache ms dt =
     (if ms \<le> 0 then Inl ValueError
      else if dt < 0 then Inl ValueError
      else if dt > MAX_TTL then Inl ValueError
      else Inr \<lparr>max_size = ms, default_ttl = dt, cache = [], hits = 0, misses = 0,
                evictions = 0\<rparr>)"

text \<open>\<^verbatim>\<open>_is_expired(expiry)\<close>, with \<open>now\<close> its clock read.\<close>

definition is_expired :: "real \<Rightarrow> real \<Rightarrow> bool" where
  "is_expired now expiry = (now > expiry)"

text \<open>\<^verbatim>\<open>_evict_expired()\<close>: collect the expired keys, then delete them one by one.\<close>

definition expired_keys :: "real \<Rightarrow> 'v ordered_dict \<Rightarrow> string list" where
  "expired_keys now c = map fst (filter (\<lambda>e. now > snd (snd e)) c)"

definition evict_expired :: "real \<Rightarrow> 'v ttl_cache \<Rightarrow> 'v ttl_cache" where
  "evict_expired now s =
     fold (\<lambda>key s'. s'\<lparr>cache := od_del key (cache s'), evictions := evictions s' + 1\<rparr>)
          (expired_keys now (cache s)) s"

text \<open>\<^verbatim>\<open>_evict_lru()\<close>: \<^verbatim>\<open>popitem(last=False)\<close> removes the head, and raises on an
  empty dict.\<close>

definition evict_lru :: "'v ttl_cache \<Rightarrow> py_error + 'v ttl_cache" where
  "evict_lru s =
     (if int (length (cache s)) \<ge> max_size s
      then (case cache s of
              [] \<Rightarrow> Inl KeyError
            | _ # rest \<Rightarrow> Inr (s\<lparr>cache := rest, evictions := evictions s + 1\<rparr>))
      else Inr s)"

text \<open>\<^verbatim>\<open>TTLCache.get(key)\<close>, with \<open>now\<close> the clock read of \<^verbatim>\<open>_is_expired\<close>.
  \<open>None\<close> is the absent result.\<close>

definition TTLCache_get :: "real \<Rightarrow> string \<Rightarrow> 'v ttl_cache \<Rightarrow> 'v option \<times> 'v ttl_cache" where
  "TTLCache_get now key s =
     (if \<not> od_contains key (cache s) then (None, s\<lparr>misses := misses s + 1\<rparr>)
      else case map_of (cache s) key of
        None \<Rightarrow> (None, s\<lparr>misses := misses s + 1\<rparr>)
      | Some (val, expiry) \<Rightarrow>
          if is_expired now expiry then
            (let s1 = (case map_of (cache s) key of
                         None \<Rightarrow> s
                       | Some current_entry \<Rightarrow>
                           if snd current_entry = expiry
                           then s\<lparr>cache := od_del key (cache s),
                                  evictions := evictions s + 1\<rparr>
                           else s)
             in (None, s1\<lparr>misses := misses s1 + 1\<rparr>))
          else (Some val, s\<lparr>cache := od_move_to_end key (cache s), hits := hits s + 1\<rparr>))"

text \<open>\<^verbatim>\<open>TTLCache.set(key, value, ttl)\<close>. \<open>current_time\<close> is the clock read of the
  expiry computation, \<open>sweep_now\<close> the later one inside \<^verbatim>\<open>_evict_expired\<close>.
  A raise leaves the cache as it was.\<close>

definition TTLCache_set ::
  "real \<Rightarrow> real \<Rightarrow> string \<Rightarrow> 'v \<Rightarrow> int option \<Rightarrow> 'v ttl_cache \<Rightarrow> py_error + 'v ttl_cache" where
  "TTLCache_set current_time sweep_now key val ttl s =
     (let ttl0 = (case ttl of Some t \<Rightarrow> t | None \<Rightarrow> default_ttl s)
      in if ttl0 < 0 then Inl ValueError
         else
           (let ttl1 = (if ttl0 > MAX_TTL then MAX_TTL else ttl0);
                expiry = current_time + of_int ttl1
            in if expiry < current_time \<or> expiry > current_time + of_int MAX_TTL
               then Inl ValueError
               else
                 (let s1 = evict_expired sweep_now s
                  in case (if \<not> od_contains key (cache s1) then evict_lru s1 else Inr s1) of
                       Inl e \<Rightarrow> Inl e
                     | Inr s2 \<Rightarrow>
                         Inr (s2\<lparr>cache :=
                                od_move_to_end key (od_setitem key (val, expiry) (cache s2))\<rparr>))))"

text \<open>\<^verbatim>\<open>TTLCache.delete(key)\<close> and \<^verbatim>\<open>TTLCache.clear()\<close>\<close>

definition TTLCache_delete :: "string \<Rightarrow> 'v ttl_cache \<Rightarrow> 'v ttl_cache" where
  "TTLCache_delete key s =
     (if od_contains key (cache s) then s\<lparr>cache := od_del key (cache s)\<rparr> else s)"

definition TTLCache_clear :: "'v ttl_cache \<Rightarrow> 'v ttl_cache" where
  "TTLCache_clear s = s\<lparr>cache := []\<rparr>"

text \<open>\<^verbatim>\<open>round(x, 2)\<close> is a builtin of the runtime, applied to the float quotient; it is
  the parameter \<open>round2\<close> of \<open>get_stats\<close>. What is assumed of it on the idealised reals:
  the result is a multiple of \<open>1/100\<close> and a nearest one. How a tie is broken is left
  open; on floats it depends on the representation error of the quotient.\<close>

definition rounds_to_hundredths :: "(real \<Rightarrow> real) \<Rightarrow> bool" where
  "rounds_to_hundredths round2 \<longleftrightarrow>
     (\<forall>x. (\<exists>k::int. round2 x = of_int k / 100) \<and> \<bar>round2 x - x\<bar> \<le> 1 / 200)"

record cache_stats =
  stat_size :: nat
  stat_max_size :: int
  stat_hits :: nat
  stat_misses :: nat
  stat_hit_rate_percent :: real
  stat_evictions :: nat

text \<open>\<^verbatim>\<open>TTLCache.get_stats()\<close>; it changes nothing, so only the returned dict is modelled.\<close>

definition TTLCache_get_stats :: "(real \<Rightarrow> real) \<Rightarrow> 'v ttl_cache \<Rightarrow> cache_stats" where
  "TTLCache_get_stats round2 s =
     (let total_requests = hits s + misses s;
          hit_rate = (if total_requests > 0
                      then real (hits s) / real total_requests * 100 else 0)
      in \<lparr>stat_size = length (cache s),
          stat_max_size = max_size s,
          stat_hits = hits s,
          stat_misses = misses s,
          stat_hit_rate_percent = round2 hit_rate,
          stat_evictions = evictions s\<rparr>)"

subsection \<open>TTLCache: runs of operations and the specification of \<open>set\<close>\<close>

text \<open>The calls a client can make on a cache, each with the clock reads it performs.\<close>

datatype 'v cache_op =
  Get real string
| Set real real string 'v "int option"
| Delete string
| Clear

text \<open>One call on the cache. A \<open>set\<close> that raises leaves the cache as it was.\<close>

fun apply_op :: "'v cache_op \<Rightarrow> 'v ttl_cache \<Rightarrow> 'v ttl_cache" where
  "apply_op (Get now key) s = snd (TTLCache_get now key s)"
| "apply_op (Set current_time sweep_now key val ttl) s =
     (case TTLCache_set current_time sweep_now key val ttl s of
        Inl _ \<Rightarrow> s
      | Inr s' \<Rightarrow> s')"
| "apply_op (Delete key) s = TTLCache_delete key s"
| "apply_op Clear s = TTLCache_clear s"

text \<open>The sweep as the specification words it: every entry expired at \<open>now\<close> is removed
  and one eviction is recorded for each.\<close>

definition sweep_expired :: "real \<Rightarrow> 'v ttl_cache \<Rightarrow> 'v ttl_cache" where
  "sweep_expired now s =
     s\<lparr>cache := filter (\<lambda>e. \<not> now > snd (snd e)) (cache s),
       evictions := evictions s + length (filter (\<lambda>e. now > snd (snd e)) (cache s))\<rparr>"

text \<open>\<open>set\<close> as the specification words it: sweep the expired entries; then, if the key
  is new and the cache is at \<open>maxSize\<close>, evict the head of the recency order and record
  one eviction; then insert or overwrite the entry as the most recently used one.\<close>

definition set_spec :: "real \<Rightarrow> string \<Rightarrow> 'v \<times> real \<Rightarrow> 'v ttl_cache \<Rightarrow> 'v ttl_cache" where
  "set_spec sweep_now key entry s =
     (let s1 = sweep_expired sweep_now s;
          s2 = (if \<not> od_contains key (cache s1) \<and> int (length (cache s1)) = max_size s1
                then s1\<lparr>cache := tl (cache s1), evictions := evictions s1 + 1\<rparr>
                else s1)
      in s2\<lparr>cache := od_del key (cache s2) @ [(key, entry)]\<rparr>)"

text \<open>An insertion: the two clock reads of the \<open>set\<close>, its key, value and TTL.\<close>

type_synonym 'v insertion = "real \<times> real \<times> string \<times> 'v \<times> int"

definition ins_op :: "'v insertion \<Rightarrow> 'v cache_op" where
  "ins_op = (\<lambda>(current_time, sweep_now, key, val, ttl). Set current_time sweep_now key val (Some ttl))"

definition ins_key :: "'v insertion \<Rightarrow> string" where
  "ins_key = (\<lambda>(current_time, sweep_now, key, val, ttl). key)"

definition ins_ttl :: "'v insertion \<Rightarrow> int" where
  "ins_ttl = (\<lambda>(current_time, sweep_now, key, val, ttl). ttl)"

definition ins_sweep :: "'v insertion \<Rightarrow> real" where
  "ins_sweep = (\<lambda>(current_time, sweep_now, key, val, ttl). sweep_now)"

definition ins_expiry :: "'v insertion \<Rightarrow> real" where
  "ins_expiry = (\<lambda>(current_time, sweep_now, key, val, ttl). current_time + of_int (min ttl MAX_TTL))"

text \<open>No entry of the run has expired at the sweep of any insertion of the run.\<close>

definition none_expires :: "'v insertion list \<Rightarrow> bool" where
  "none_expires ins =
     (\<forall>x \<in> set ins. 0 \<le> ins_ttl x \<and> (\<forall>y \<in> set ins. ins_sweep y \<le> ins_expiry x))"

text \<open>The state invariant of the cache: each key once, at most \<open>max_size\<close> entries,
  and a positive \<open>max_size\<close> as the constructor demands.\<close>

definition cache_inv :: "'v ttl_cache \<Rightarrow> bool" where
  "cache_inv s \<longleftrightarrow>
     distinct (map fst (cache s)) \<and> int (length (cache s)) \<le> max_size s \<and> 0 < max_size s"

subsection \<open>CryptoAPICache: key derivation\<close>

text \<open>
  \<^verbatim>\<open>_generate_cache_key(endpoint, params)\<close>. A parameter dict is an association list
  with distinct keys, in insertion order. Two library functions are parameters of the
  model: \<open>json_items\<close>, the JSON text of a dict whose items are written in the given order
  (\<^verbatim>\<open>json.dumps\<close> with \<^verbatim>\<open>sort_keys=True\<close> hands it the items sorted by key), and
  \<open>sha256_hex\<close>, the hex digest of a string. Strings are compared as Python compares them,
  character by character.
\<close>

text \<open>\<^verbatim>\<open>x in endpoint\<close> on strings: \<open>x\<close> occurs as a contiguous substring.\<close>

fun is_substring :: "string \<Rightarrow> string \<Rightarrow> bool" where
  "is_substring x [] = (x = [])"
| "is_substring x (c # cs) = (take (length x) (c # cs) = x \<or> is_substring x cs)"

definition is_live :: "string \<Rightarrow> bool" where
  "is_live endpoint = (is_substring ''price'' endpoint \<or> is_substring ''markets'' endpoint)"

text \<open>\<^verbatim>\<open>int(x)\<close> on a float truncates towards zero.\<close>

definition py_int :: "real \<Rightarrow> int" where
  "py_int x = (if 0 \<le> x then \<lfloor>x\<rfloor> else \<lceil>x\<rceil>)"

definition time_bucket :: "real \<Rightarrow> int" where
  "time_bucket now = py_int (now / 60) * 60"

text \<open>\<^verbatim>\<open>str(i)\<close> on an int: its decimal digits, after a minus sign when negative.\<close>

definition digit_char :: "nat \<Rightarrow> char" where
  "digit_char d = char_of (48 + d)"

fun str_nat :: "nat \<Rightarrow> string" where
  "str_nat n = (if n < 10 then [digit_char n] else str_nat (n div 10) @ [digit_char (n mod 10)])"

declare str_nat.simps [simp del]

definition str_int :: "int \<Rightarrow> string" where
  "str_int i = (if i < 0 then CHR ''-'' # str_nat (nat (- i)) else str_nat (nat i))"

text \<open>The string that is hashed, and the key.\<close>

definition cache_data ::
  "((string \<times> 'v) list \<Rightarrow> string) \<Rightarrow> real \<Rightarrow> string \<Rightarrow> (string \<times> 'v) list option \<Rightarrow> string" where
  "cache_data json_items now endpoint params =
     (let params1 = (case params of None \<Rightarrow> [] | Some [] \<Rightarrow> [] | Some l \<Rightarrow> l);
          sorted_params = json_items (sort_key fst params1)
      in if is_live endpoint
         then endpoint @ '':'' @ sorted_params @ '':'' @ str_int (time_bucket now)
         else endpoint @ '':'' @ sorted_params)"

definition generate_cache_key ::
  "(string \<Rightarrow> string) \<Rightarrow> ((string \<times> 'v) list \<Rightarrow> string) \<Rightarrow> real \<Rightarrow> string
     \<Rightarrow> (string \<times> 'v) list option \<Rightarrow> string" where
  "generate_cache_key sha256_hex json_items now endpoint params =
     sha256_hex (cache_data json_items now endpoint params)"

subsection \<open>Example states\<close>

text \<open>Concrete states for the instances below: a cache with default TTL 300, and a
  limiter with the one service \<open>x\<close> whose bucket refills one token per second up to 5.\<close>

text \<open>One function that rounds to hundredths, ties upwards, to stand for \<open>round2\<close> in
  the instances below. It is used only where the quotient is itself a multiple of
  \<open>1/100\<close>, where every such function agrees.\<close>

definition round_half_up2 :: "real \<Rightarrow> real" where
  "round_half_up2 x = of_int (round (x * 100)) / 100"

abbreviation (input) cache_state ::
  "int \<Rightarrow> nat ordered_dict \<Rightarrow> nat \<Rightarrow> nat \<Rightarrow> nat \<Rightarrow> nat ttl_cache" where
  "cache_state ms c h m e \<equiv>
     \<lparr>max_size = ms, default_ttl = 300, cache = c, hits = h, misses = m, evictions = e\<rparr>"

abbreviation (input) cache_ab :: "nat ttl_cache" where
  "cache_ab \<equiv> cache_state 2 [(''a'', 1, 300), (''b'', 2, 301)] 0 0 0"

abbreviation (input) cache_ba :: "nat ttl_cache" where
  "cache_ba \<equiv> cache_state 2 [(''b'', 2, 301), (''a'', 1, 300)] 1 0 0"

abbreviation (input) three_inserts :: "nat insertion list" where
  "three_inserts \<equiv> [(0, 0, ''a'', 1, 10), (1, 1, ''b'', 2, 10), (2, 2, ''c'', 3, 10)]"

abbreviation (input) bucket_x :: "real \<Rightarrow> token_bucket" where
  "bucket_x tok \<equiv> \<lparr>rate = 1, capacity = 5, tokens = tok, last_update = 0\<rparr>"

abbreviation (input) limiter_x :: "real \<Rightarrow> real \<Rightarrow> nat \<Rightarrow> rate_limiter" where
  "limiter_x tok back free \<equiv>
     \<lparr>buckets = [''x'' \<mapsto> bucket_x tok], backoff_until = [''x'' \<mapsto> back],
      waiters = [''x'' \<mapsto> free]\<rparr>"

abbreviation (input) limiter_xy :: rate_limiter where
  "limiter_xy \<equiv>
     \<lparr>buckets = [''x'' \<mapsto> bucket_x 5,
                  ''y'' \<mapsto> \<lparr>rate = 1 / 10, capacity = 1 / 2, tokens = 1 / 2, last_update = 0\<rparr>],
      backoff_until = [''x'' \<mapsto> 0, ''y'' \<mapsto> 0],
      waiters = [''x'' \<mapsto> 100, ''y'' \<mapsto> 100]\<rparr>"

abbreviation (input) params_ab :: "(string \<times> string) list" where
  "params_ab \<equiv> [(''a'', ''1''), (''b'', ''2'')]"

abbreviation (input) params_ba :: "(string \<times> string) list" where
  "params_ba \<equiv> [(''b'', ''2''), (''a'', ''1'')]"

abbreviation (input) toy_json :: "(string \<times> string) list \<Rightarrow> string" where
  "toy_json \<equiv> (\<lambda>items. concat (map fst items))"

abbreviation (input) toy_hash :: "string \<Rightarrow> string" where
  "toy_hash \<equiv> (\<lambda>x. x)"

subsection \<open>TokenBucket: properties\<close>

lemma consume_fields:
  "rate (snd (consume n now b)) = rate b"
  "capacity (snd (consume n now b)) = capacity b"
  "last_update (snd (consume n now b)) = now"
  by (simp_all add: consume_def Let_def)

lemma consume_le_capacity:
  "0 \<le> n \<Longrightarrow> tokens (snd (consume n now b)) \<le> capacity b"
  by (simp add: consume_def Let_def min_def)

lemma consume_nonneg:
  assumes "0 \<le> n" "0 \<le> tokens b" "0 \<le> capacity b" "0 \<le> rate b" "last_update b \<le> now"
  shows "0 \<le> tokens (snd (consume n now b))"
proof -
  have "0 \<le> (now - last_update b) * rate b" using assms by simp
  then have "0 \<le> tokens b + (now - last_update b) * rate b" using assms by simp
  then show ?thesis using assms by (simp add: consume_def Let_def min_def)
qed

lemma consume_seq_invariant:
  assumes "\<forall>x \<in> set ops. 0 \<le> fst x \<and> 0 \<le> snd x"
    and "0 \<le> tokens b" "tokens b \<le> capacity b" "0 \<le> rate b"
  shows "0 \<le> tokens (consume_seq b ops) \<and> tokens (consume_seq b ops) \<le> capacity b
         \<and> capacity (consume_seq b ops) = capacity b \<and> rate (consume_seq b ops) = rate b"
  using assms
proof (induction ops arbitrary: b)
  case Nil
  then show ?case by simp
next
  case (Cons x ops)
  obtain e n where x: "x = (e, n)" by (cases x)
  let ?b = "snd (consume n (last_update b + e) b)"
  from Cons.prems x have en: "0 \<le> e" "0 \<le> n" by simp_all
  have c0: "0 \<le> capacity b" using Cons.prems by linarith
  have 1: "0 \<le> tokens ?b"
    using consume_nonneg[of n b "last_update b + e"] en Cons.prems c0 by simp
  have 2: "tokens ?b \<le> capacity ?b"
    using consume_le_capacity[OF en(2)] by (simp add: consume_fields)
  have 3: "0 \<le> rate ?b" using Cons.prems by (simp add: consume_fields)
  have 4: "\<forall>x \<in> set ops. 0 \<le> fst x \<and> 0 \<le> snd x" using Cons.prems by simp
  from Cons.IH[OF 4 1 2 3] show ?case by (simp add: x consume_fields)
qed

text \<open>
  Claim C1, amended to non-negative amounts. For a bucket built with \<open>rate > 0\<close> and
  \<open>capacity > 0\<close>, after any run of \<open>consume(n)\<close> calls with \<open>n \<ge> 0\<close> and non-negative
  elapsed times the token level lies between zero and the capacity; one more call with
  \<open>n \<ge> 0\<close> keeps the level at most the capacity, leaves it non-negative when it
  succeeds, and when it fails it changes the bucket by the refill update only.
\<close>

theorem token_bucket_bounds:
  assumes "0 < r" and "0 < c"
    and "\<forall>x \<in> set ops. 0 \<le> fst x \<and> 0 \<le> snd x"
    and "0 \<le> e" and "0 \<le> n"
    and "b = consume_seq (TokenBucket r c t0) ops"
    and "now = last_update b + e"
  shows "0 \<le> tokens b \<and> tokens b \<le> c \<and> capacity b = c \<and> rate b = r
       \<and> tokens (snd (consume n now b)) \<le> c
       \<and> (fst (consume n now b) \<longrightarrow> 0 \<le> tokens (snd (consume n now b)))
       \<and> (\<not> fst (consume n now b) \<longrightarrow> snd (consume n now b) = refill now b)"
proof -
  have inv: "0 \<le> tokens b \<and> tokens b \<le> c \<and> capacity b = c \<and> rate b = r"
    using consume_seq_invariant[of ops "TokenBucket r c t0"] assms
    by (simp add: TokenBucket_def)
  have le: "tokens (snd (consume n now b)) \<le> c"
    using consume_le_capacity[OF \<open>0 \<le> n\<close>, of now b] inv by simp
  have nn: "0 \<le> tokens (snd (consume n now b))"
    using consume_nonneg[of n b now] inv assms by simp
  have fl: "\<not> fst (consume n now b) \<longrightarrow> snd (consume n now b) = refill now b"
    by (simp add: consume_def refill_def Let_def)
  from inv le nn fl show ?thesis by simp
qed

theorem token_bucket_bounds_witness:
  "tokens (consume_seq (TokenBucket 1 5 0) [(0, 3), (1, 4)]) = 3
   \<and> \<not> fst (consume 4 1 (consume_seq (TokenBucket 1 5 0) [(0, 3), (1, 4)]))
   \<and> snd (consume 4 1 (consume_seq (TokenBucket 1 5 0) [(0, 3), (1, 4)]))
       = refill 1 (consume_seq (TokenBucket 1 5 0) [(0, 3), (1, 4)])"
  using token_bucket_bounds[of 1 5 "[(0, 3), (1, 4)]" 0 4
      "consume_seq (TokenBucket 1 5 0) [(0, 3), (1, 4)]" 0 1]
  by (simp add: TokenBucket_def consume_def refill_def Let_def)

text \<open>The claim as written, for every amount: a negative amount passes the check
  \<open>tokens \<ge> n\<close> and the subtraction lifts the level above the capacity.\<close>

theorem token_bucket_negative_amount_counterexample:
  "capacity (snd (consume (-1) 0 (TokenBucket 1 5 0)))
     < tokens (snd (consume (-1) 0 (TokenBucket 1 5 0)))"
  by (simp add: TokenBucket_def consume_def Let_def)

subsection \<open>TTLCache: lookup\<close>

lemma od_contains_map_of: "od_contains k c \<longleftrightarrow> map_of c k \<noteq> None"
  by (simp add: od_contains_def map_of_eq_None_iff)

lemma od_del_not_contains: "\<not> od_contains k (od_del k c)"
  by (auto simp: od_contains_def od_del_def)

lemma get_expired:
  assumes "map_of (cache s) key = Some (v, e)" "e < now"
  shows "TTLCache_get now key s =
          (None, s\<lparr>cache := od_del key (cache s), evictions := evictions s + 1,
                    misses := misses s + 1\<rparr>)"
  using assms by (simp add: TTLCache_get_def od_contains_map_of is_expired_def Let_def)

lemma get_some:
  assumes "TTLCache_get now key s = (Some v', s')"
  shows "\<exists>e. map_of (cache s) key = Some (v', e) \<and> now \<le> e"
  using assms
  by (auto simp: TTLCache_get_def od_contains_map_of is_expired_def Let_def
      split: if_splits option.splits prod.splits)

lemma get_absent:
  assumes "\<not> od_contains key (cache s)"
  shows "TTLCache_get now key s = (None, s\<lparr>misses := misses s + 1\<rparr>)"
  using assms by (simp add: TTLCache_get_def)

lemma get_live:
  assumes "map_of (cache s) key = Some (v, e)" "now \<le> e"
  shows "TTLCache_get now key s =
          (Some v, s\<lparr>cache := od_del key (cache s) @ [(key, (v, e))], hits := hits s + 1\<rparr>)"
  using assms
  by (simp add: TTLCache_get_def od_contains_map_of is_expired_def od_move_to_end_def)

text \<open>
  Claim C2, amended at the boundary. An entry counts as expired when the clock is
  strictly past its expiry. For a key whose entry has its expiry strictly before now,
  \<open>get\<close> removes the entry, adds one to the evictions and one to the misses, leaves the
  hits, and returns absent. For a key whose entry has its expiry at now or later, so also
  at the very instant of expiry, \<open>get\<close> returns the value, moves the entry to the most
  recently used position and adds one hit. A value that \<open>get\<close> returns belongs to an
  entry of the key whose expiry is not before now. For an absent key \<open>get\<close> adds one miss
  and returns absent.
\<close>

theorem get_never_serves_expired:
  "(map_of (cache s) key = Some (v, e) \<and> e < now \<longrightarrow>
      TTLCache_get now key s =
        (None, s\<lparr>cache := od_del key (cache s), evictions := evictions s + 1,
                  misses := misses s + 1\<rparr>)
      \<and> \<not> od_contains key (od_del key (cache s)))
   \<and> (map_of (cache s) key = Some (v, e) \<and> now \<le> e \<longrightarrow>
        TTLCache_get now key s =
          (Some v, s\<lparr>cache := od_del key (cache s) @ [(key, (v, e))],
                     hits := hits s + 1\<rparr>))
   \<and> (map_of (cache s) key = Some (v, now) \<longrightarrow> fst (TTLCache_get now key s) = Some v)
   \<and> (TTLCache_get now key s = (Some v', s') \<longrightarrow>
        (\<exists>e'. map_of (cache s) key = Some (v', e') \<and> now \<le> e'))
   \<and> (\<not> od_contains key (cache s) \<longrightarrow>
        TTLCache_get now key s = (None, s\<lparr>misses := misses s + 1\<rparr>))"
proof -
  have at: "map_of (cache s) key = Some (v, now) \<longrightarrow> fst (TTLCache_get now key s) = Some v"
    using get_live[of s key v now now] by simp
  from at get_expired[of s key v e now] get_live[of s key v e now]
    get_some[of now key s v' s'] get_absent[of key s now]
    od_del_not_contains[of key "cache s"]
  show ?thesis by blast
qed

theorem get_never_serves_expired_witness:
  "TTLCache_get 11 ''k'' (cache_state 2 [(''k'', (7, 10))] 0 0 0)
    = (None, cache_state 2 [] 0 1 1)
   \<and> TTLCache_get 9 ''k'' (cache_state 2 [(''j'', (3, 20)), (''k'', (7, 10))] 0 0 0)
    = (Some 7, cache_state 2 [(''j'', (3, 20)), (''k'', (7, 10))] 1 0 0)
   \<and> TTLCache_get 20 ''j'' (cache_state 2 [(''j'', (3, 20)), (''k'', (7, 30))] 0 0 0)
    = (Some 3, cache_state 2 [(''k'', (7, 30)), (''j'', (3, 20))] 1 0 0)
   \<and> (\<exists>e'. map_of [(''j'', (3::nat, 20::real)), (''k'', (7, 30))] ''j'' = Some (3, e')
          \<and> 20 \<le> e')
   \<and> TTLCache_get 11 ''j'' (cache_state 2 [(''k'', (7, 10))] 0 0 0)
    = (None, cache_state 2 [(''k'', (7, 10))] 0 1 0)"
proof -
  have 1: "TTLCache_get 11 ''k'' (cache_state 2 [(''k'', (7, 10))] 0 0 0)
    = (None, cache_state 2 [] 0 1 1)"
    using get_never_serves_expired[of "cache_state 2 [(''k'', (7, 10))] 0 0 0" "''k''" 7 10 11
        7 undefined]
    by (simp add: od_del_def)
  have 2: "TTLCache_get 9 ''k'' (cache_state 2 [(''j'', (3, 20)), (''k'', (7, 10))] 0 0 0)
    = (Some 7, cache_state 2 [(''j'', (3, 20)), (''k'', (7, 10))] 1 0 0)"
    using get_never_serves_expired[of
        "cache_state 2 [(''j'', (3, 20)), (''k'', (7, 10))] 0 0 0" "''k''" 7 10 9 7 undefined]
    by (simp add: od_del_def)
  have 3: "TTLCache_get 20 ''j'' (cache_state 2 [(''j'', (3, 20)), (''k'', (7, 30))] 0 0 0)
    = (Some 3, cache_state 2 [(''k'', (7, 30)), (''j'', (3, 20))] 1 0 0)"
    using get_never_serves_expired[of
        "cache_state 2 [(''j'', (3, 20)), (''k'', (7, 30))] 0 0 0" "''j''" 3 20 20 3 undefined]
    by (simp add: od_del_def)
  have 4: "\<exists>e'. map_of [(''j'', (3::nat, 20::real)), (''k'', (7, 30))] ''j'' = Some (3, e')
          \<and> 20 \<le> e'"
    using get_never_serves_expired[of
        "cache_state 2 [(''j'', (3, 20)), (''k'', (7, 30))] 0 0 0" "''j''" 3 20 20 3
        "cache_state 2 [(''k'', (7, 30)), (''j'', (3, 20))] 1 0 0"] 3
    by simp
  have 5: "TTLCache_get 11 ''j'' (cache_state 2 [(''k'', (7, 10))] 0 0 0)
    = (None, cache_state 2 [(''k'', (7, 10))] 0 1 0)"
    using get_never_serves_expired[of "cache_state 2 [(''k'', (7, 10))] 0 0 0" "''j''" 7 10 11
        7 undefined]
    by (simp add: od_contains_def)
  from 1 2 3 4 5 show ?thesis by (intro conjI)
qed

text \<open>The claim as written, with the boundary included: at the instant of its expiry an
  entry is still served, counted as a hit and kept.\<close>

theorem get_at_expiry_instant_counterexample:
  "TTLCache_get 10 ''k'' (cache_state 2 [(''k'', (7, 10))] 0 0 0)
    = (Some 7, cache_state 2 [(''k'', (7, 10))] 1 0 0)"
  by (simp add: TTLCache_get_def od_contains_def od_del_def od_move_to_end_def is_expired_def)

subsection \<open>TTLCache: statistics\<close>

lemma rounds_zero:
  assumes "rounds_to_hundredths round2"
  shows "round2 0 = 0"
proof -
  from assms obtain k :: int where k: "round2 0 = of_int k / 100"
    and e: "\<bar>round2 0 - 0\<bar> \<le> 1 / 200"
    unfolding rounds_to_hundredths_def by blast
  from k e have "\<bar>real_of_int k\<bar> \<le> 1 / 2" by simp
  then have "k = 0" by linarith
  with k show ?thesis by simp
qed

text \<open>A multiple of \<open>1/100\<close> is left as it is by every such function.\<close>

lemma rounds_fixes_hundredths:
  assumes "rounds_to_hundredths round2"
  shows "round2 (of_int j / 100) = of_int j / 100"
proof -
  from assms obtain k :: int where k: "round2 (of_int j / 100) = of_int k / 100"
    and e: "\<bar>round2 (of_int j / 100) - of_int j / 100\<bar> \<le> 1 / 200"
    unfolding rounds_to_hundredths_def by blast
  from e have "\<bar>real_of_int k / 100 - real_of_int j / 100\<bar> \<le> 1 / 200" by (simp only: k)
  then have "\<bar>real_of_int k - real_of_int j\<bar> \<le> 1 / 2" by linarith
  then have "k = j" by linarith
  with k show ?thesis by simp
qed

lemma get_stats_one_hit_one_miss:
  assumes "rounds_to_hundredths round2"
  shows "stat_hit_rate_percent (TTLCache_get_stats round2 (cache_state ms c 1 1 e)) = 50"
  using rounds_fixes_hundredths[OF assms, of 5000]
  by (simp add: TTLCache_get_stats_def Let_def)

lemma rounds_range:
  assumes "rounds_to_hundredths round2" and "0 \<le> x" and "x \<le> 100"
  shows "0 \<le> round2 x \<and> round2 x \<le> 100"
proof -
  from assms(1) obtain k :: int where k: "round2 x = of_int k / 100"
    and e: "\<bar>round2 x - x\<bar> \<le> 1 / 200"
    unfolding rounds_to_hundredths_def by blast
  from e have near: "x - 1 / 200 \<le> round2 x" "round2 x \<le> x + 1 / 200" by linarith+
  from k have kr: "real_of_int k = 100 * round2 x" by simp
  from near(1) kr assms(2) have "- (1 / 2) \<le> real_of_int k" by linarith
  then have lo: "0 \<le> k" by linarith
  from near(2) kr assms(3) have "real_of_int k \<le> 10000 + 1 / 2" by linarith
  then have hi: "k \<le> 10000" by linarith
  from lo hi k show ?thesis by simp
qed

lemma round_half_up2_rounds: "rounds_to_hundredths round_half_up2"
proof -
  have "\<bar>round_half_up2 x - x\<bar> \<le> 1 / 200" for x
  proof -
    have "\<bar>of_int (round (x * 100)) - x * 100\<bar> \<le> 1 / 2"
      by (rule of_int_round_abs_le)
    then have "\<bar>(of_int (round (x * 100)) - x * 100) / 100\<bar> \<le> (1 / 2) / 100"
      by (simp del: times_divide_eq_left)
    then show ?thesis unfolding round_half_up2_def by (simp add: diff_divide_distrib)
  qed
  then show ?thesis unfolding rounds_to_hundredths_def round_half_up2_def by blast
qed

text \<open>
  Claim C9, amended in the hit rate. \<open>get_stats\<close> returns the current entry count as
  size, the configured maximum size, and the lifetime hits, misses and evictions. The
  rate it returns is a percentage: \<open>0\<close> when no lookup has been recorded, and otherwise
  \<open>100 * hits / (hits + misses)\<close> rounded to two decimals, that is a multiple of \<open>0.01\<close>
  within \<open>0.005\<close> of the exact percentage, and between \<open>0\<close> and \<open>100\<close>.
\<close>

theorem get_stats_fields:
  assumes "rounds_to_hundredths round2"
  shows "stat_size (TTLCache_get_stats round2 s) = length (cache s)
   \<and> stat_max_size (TTLCache_get_stats round2 s) = max_size s
   \<and> stat_hits (TTLCache_get_stats round2 s) = hits s
   \<and> stat_misses (TTLCache_get_stats round2 s) = misses s
   \<and> stat_evictions (TTLCache_get_stats round2 s) = evictions s
   \<and> (hits s + misses s = 0 \<longrightarrow> stat_hit_rate_percent (TTLCache_get_stats round2 s) = 0)
   \<and> (hits s + misses s > 0 \<longrightarrow>
        (\<exists>k::int. stat_hit_rate_percent (TTLCache_get_stats round2 s) = of_int k / 100)
        \<and> \<bar>stat_hit_rate_percent (TTLCache_get_stats round2 s)
             - 100 * (real (hits s) / real (hits s + misses s))\<bar> \<le> 1 / 200
        \<and> 0 \<le> stat_hit_rate_percent (TTLCache_get_stats round2 s)
        \<and> stat_hit_rate_percent (TTLCache_get_stats round2 s) \<le> 100)"
proof -
  let ?q = "real (hits s) / real (hits s + misses s) * 100"
  have z: "hits s + misses s = 0 \<longrightarrow> stat_hit_rate_percent (TTLCache_get_stats round2 s) = 0"
    by (simp add: TTLCache_get_stats_def Let_def rounds_zero[OF assms])
  have r: "hits s + misses s > 0
             \<longrightarrow> stat_hit_rate_percent (TTLCache_get_stats round2 s) = round2 ?q"
    by (simp add: TTLCache_get_stats_def Let_def)
  have m: "\<exists>k::int. round2 ?q = of_int k / 100"
    using assms unfolding rounds_to_hundredths_def by blast
  have "\<bar>round2 ?q - ?q\<bar> \<le> 1 / 200"
    using assms unfolding rounds_to_hundredths_def by blast
  then have e: "\<bar>round2 ?q - 100 * (real (hits s) / real (hits s + misses s))\<bar> \<le> 1 / 200"
    by (simp add: mult.commute)
  have b: "hits s + misses s > 0 \<longrightarrow> 0 \<le> round2 ?q \<and> round2 ?q \<le> 100"
  proof
    assume "hits s + misses s > 0"
    then have "0 \<le> ?q" "?q \<le> 100" by (simp_all add: divide_le_eq)
    then show "0 \<le> round2 ?q \<and> round2 ?q \<le> 100" by (rule rounds_range[OF assms])
  qed
  have f: "stat_size (TTLCache_get_stats round2 s) = length (cache s)
     \<and> stat_max_size (TTLCache_get_stats round2 s) = max_size s
     \<and> stat_hits (TTLCache_get_stats round2 s) = hits s
     \<and> stat_misses (TTLCache_get_stats round2 s) = misses s
     \<and> stat_evictions (TTLCache_get_stats round2 s) = evictions s"
    by (simp add: TTLCache_get_stats_def Let_def)
  from z r m e b f show ?thesis by presburger
qed

theorem get_stats_fields_witness:
  "rounds_to_hundredths round_half_up2
   \<and> hits (cache_state 2 [] 1 1 0) + misses (cache_state 2 [] 1 1 0) > 0
   \<and> stat_hit_rate_percent (TTLCache_get_stats round_half_up2 (cache_state 2 [] 1 1 0)) = 50
   \<and> hits (cache_state 2 [] 0 0 0) + misses (cache_state 2 [] 0 0 0) = 0
   \<and> stat_hit_rate_percent (TTLCache_get_stats round_half_up2 (cache_state 2 [] 0 0 0)) = 0"
proof -
  have 1: "stat_hit_rate_percent (TTLCache_get_stats round_half_up2 (cache_state 2 [] 1 1 0))
             = 50"
    using get_stats_fields[OF round_half_up2_rounds, of "cache_state 2 [] 1 1 0"]
    by (simp add: TTLCache_get_stats_def round_half_up2_def)
  have 2: "stat_hit_rate_percent (TTLCache_get_stats round_half_up2 (cache_state 2 [] 0 0 0))
             = 0"
    using get_stats_fields[OF round_half_up2_rounds, of "cache_state 2 [] 0 0 0"]
    by simp
  from round_half_up2_rounds 1 2 show ?thesis by simp
qed

text \<open>The claim as written, with the rate as the fraction \<open>hits / (hits + misses)\<close>: after
  one hit and one miss the quotient is \<open>50\<close>, which rounding to hundredths leaves as it
  is, and the returned rate is \<open>50\<close>, not \<open>1/2\<close>.\<close>

theorem get_stats_fraction_counterexample:
  "stat_hit_rate_percent (TTLCache_get_stats round_half_up2 (cache_state 2 [] 1 1 0))
     \<noteq> real (hits (cache_state 2 [] 1 1 0))
         / real (hits (cache_state 2 [] 1 1 0) + misses (cache_state 2 [] 1 1 0))"
  by (simp add: TTLCache_get_stats_def round_half_up2_def Let_def)

subsection \<open>TTLCache: capacity and recency\<close>

lemma od_del_filter_keys:
  "filter (\<lambda>e. fst e \<notin> set ks) (od_del k c) = filter (\<lambda>e. fst e \<noteq> k \<and> fst e \<notin> set ks) c"
  by (simp add: od_del_def conj_commute)

lemma fold_del:
  "fold (\<lambda>key s'. s'\<lparr>cache := od_del key (cache s'), evictions := Suc (evictions s')\<rparr>) ks s
     = s\<lparr>cache := filter (\<lambda>e. fst e \<notin> set ks) (cache s), evictions := evictions s + length ks\<rparr>"
proof (induction ks arbitrary: s)
  case Nil
  then show ?case by simp
next
  case (Cons k ks)
  show ?case by (simp add: Cons.IH od_del_filter_keys)
qed

lemma expired_keys_filter:
  assumes "distinct (map fst c)"
  shows "filter (\<lambda>e. fst e \<notin> set (expired_keys now c)) c = filter (\<lambda>e. \<not> now > snd (snd e)) c"
proof (rule filter_cong[OF refl])
  fix e assume e: "e \<in> set c"
  show "(fst e \<notin> set (expired_keys now c)) = (\<not> now > snd (snd e))"
  proof
    assume "fst e \<notin> set (expired_keys now c)"
    with e show "\<not> now > snd (snd e)" by (force simp: expired_keys_def)
  next
    assume ne: "\<not> now > snd (snd e)"
    show "fst e \<notin> set (expired_keys now c)"
    proof
      assume "fst e \<in> set (expired_keys now c)"
      then obtain e' where e': "e' \<in> set c" "now > snd (snd e')" "fst e' = fst e"
        by (auto simp: expired_keys_def)
      with assms e have "e' = e" by (meson eq_key_imp_eq_value prod.expand distinct_map inj_onD)
      with e' ne show False by simp
    qed
  qed
qed

lemma evict_expired_sweep:
  assumes "distinct (map fst (cache s))"
  shows "evict_expired now s = sweep_expired now s"
proof -
  have "length (expired_keys now (cache s)) = length (filter (\<lambda>e. now > snd (snd e)) (cache s))"
    by (simp add: expired_keys_def)
  then show ?thesis
    by (simp add: evict_expired_def sweep_expired_def fold_del expired_keys_filter[OF assms])
qed

lemma od_del_map_upd:
  "od_del k (map (\<lambda>e. if fst e = k then (k, v) else e) c) = od_del k c"
  by (induction c) (simp_all add: od_del_def)

lemma map_of_map_upd:
  "k \<in> fst ` set c \<Longrightarrow> map_of (map (\<lambda>e. if fst e = k then (k, v) else e) c) k = Some v"
  by (induction c) auto

lemma od_del_absent: "\<not> od_contains k c \<Longrightarrow> od_del k c = c"
  by (induction c) (auto simp: od_del_def od_contains_def)

lemma move_to_end_setitem: "od_move_to_end k (od_setitem k v c) = od_del k c @ [(k, v)]"
proof (cases "od_contains k c")
  case True
  then have "k \<in> fst ` set c" by (simp add: od_contains_def)
  then show ?thesis using True
    by (simp add: od_move_to_end_def od_setitem_def map_of_map_upd od_del_map_upd)
next
  case False
  then have "map_of c k = None" by (simp add: od_contains_def map_of_eq_None_iff)
  then show ?thesis using False
    by (simp add: od_move_to_end_def od_setitem_def od_del_absent map_add_def od_del_def)
qed

lemma distinct_od_del: "distinct (map fst c) \<Longrightarrow> distinct (map fst (od_del k c))"
  by (simp add: od_del_def distinct_map_filter)

lemma length_od_del_le: "length (od_del k c) \<le> length c"
  by (simp add: od_del_def)

lemma length_od_del_less:
  assumes "od_contains k c" shows "length (od_del k c) < length c"
proof -
  from assms obtain e where "e \<in> set c" "fst e = k" by (auto simp: od_contains_def)
  then show ?thesis unfolding od_del_def by (intro length_filter_less[of e]) simp_all
qed

lemma keys_od_del: "set (map fst (od_del k c)) = set (map fst c) - {k}"
  by (auto simp: od_del_def)

lemma sweep_fields:
  "max_size (sweep_expired now s) = max_size s"
  "hits (sweep_expired now s) = hits s"
  "misses (sweep_expired now s) = misses s"
  "default_ttl (sweep_expired now s) = default_ttl s"
  "cache (sweep_expired now s) = filter (\<lambda>e. \<not> now > snd (snd e)) (cache s)"
  by (simp_all add: sweep_expired_def)

lemma set_refines_spec:
  assumes inv: "cache_inv s"
    and ttl: "0 \<le> (case ttl of Some t \<Rightarrow> t | None \<Rightarrow> default_ttl s)"
  shows "TTLCache_set ct sn key val ttl s
           = Inr (set_spec sn key
                    (val, ct + of_int (min (case ttl of Some t \<Rightarrow> t | None \<Rightarrow> default_ttl s) MAX_TTL)) s)"
proof -
  let ?t0 = "case ttl of Some t \<Rightarrow> t | None \<Rightarrow> default_ttl s"
  let ?t1 = "if ?t0 > MAX_TTL then MAX_TTL else ?t0"
  let ?s1 = "sweep_expired sn s"
  have t1: "?t1 = min ?t0 MAX_TTL" by (simp add: min_def)
  have t1b: "0 \<le> ?t1" "?t1 \<le> MAX_TTL" using ttl by (simp_all add: MAX_TTL_def)
  have ok: "\<not> (ct + of_int ?t1 < ct \<or> ct + of_int ?t1 > ct + of_int MAX_TTL)"
    using t1b by (simp del: of_int_le_iff add: of_int_le_iff[where 'a = real])
  have ev: "evict_expired sn s = ?s1"
    using inv by (simp add: cache_inv_def evict_expired_sweep)
  have len: "int (length (cache ?s1)) \<le> max_size ?s1"
    using inv length_filter_le[of "\<lambda>e. \<not> sn > snd (snd e)" "cache s"]
    by (simp add: cache_inv_def sweep_fields del: length_filter_le)
  have lru: "evict_lru ?s1 =
      Inr (if int (length (cache ?s1)) = max_size ?s1
           then ?s1\<lparr>cache := tl (cache ?s1), evictions := evictions ?s1 + 1\<rparr> else ?s1)"
  proof (cases "int (length (cache ?s1)) = max_size ?s1")
    case True
    then have "cache ?s1 \<noteq> []" using inv by (auto simp: cache_inv_def sweep_fields)
    then obtain x rest where "cache ?s1 = x # rest" by (cases "cache ?s1") auto
    with True show ?thesis by (simp add: evict_lru_def)
  next
    case False
    with len show ?thesis by (simp add: evict_lru_def)
  qed
  show ?thesis
    unfolding TTLCache_set_def Let_def using ttl ok
    by (simp only: ev lru t1 set_spec_def Let_def move_to_end_setitem)
       (simp add: not_less)
qed

lemma length_od_del_distinct:
  "distinct (map fst c) \<Longrightarrow> od_contains k c \<Longrightarrow> Suc (length (od_del k c)) = length c"
proof (induction c)
  case Nil
  then show ?case by (simp add: od_contains_def)
next
  case (Cons x c)
  show ?case
  proof (cases "fst x = k")
    case True
    with Cons.prems have "\<not> od_contains k c" by (auto simp: od_contains_def)
    then have "od_del k c = c" by (rule od_del_absent)
    with True show ?thesis by (simp add: od_del_def)
  next
    case False
    with Cons.prems have "od_contains k c" "distinct (map fst c)" by (auto simp: od_contains_def)
    with Cons.IH have "Suc (length (od_del k c)) = length c" by simp
    with False show ?thesis by (simp add: od_del_def)
  qed
qed

lemma od_contains_tl: "od_contains k (tl c) \<Longrightarrow> od_contains k c"
  by (cases c) (auto simp: od_contains_def)

lemma length_tl_int: "c \<noteq> [] \<Longrightarrow> int (length (tl c)) + 1 = int (length c)"
  by (cases c) simp_all

lemma cache_inv_set_spec:
  assumes "cache_inv s"
  shows "cache_inv (set_spec sn key entry s)"
proof -
  let ?s1 = "sweep_expired sn s"
  let ?full = "\<not> od_contains key (cache ?s1) \<and> int (length (cache ?s1)) = max_size ?s1"
  let ?c2 = "if ?full then tl (cache ?s1) else cache ?s1"
  have d1: "distinct (map fst (cache ?s1))"
    using assms by (simp add: cache_inv_def sweep_fields distinct_map_filter)
  have l1: "int (length (cache ?s1)) \<le> max_size s"
    using assms length_filter_le[of "\<lambda>e. \<not> sn > snd (snd e)" "cache s"]
    by (simp add: cache_inv_def sweep_fields del: length_filter_le)
  have d2: "distinct (map fst ?c2)" using d1 by (simp add: map_tl distinct_tl)
  have cache: "cache (set_spec sn key entry s) = od_del key ?c2 @ [(key, entry)]"
    by (simp add: set_spec_def Let_def)
  have ms: "max_size (set_spec sn key entry s) = max_size s"
    by (simp add: set_spec_def Let_def sweep_fields)
  have dist: "distinct (map fst (od_del key ?c2 @ [(key, entry)]))"
    using distinct_od_del[OF d2, of key] keys_od_del[of key ?c2] by simp
  have len: "int (length (od_del key ?c2 @ [(key, entry)])) \<le> max_size s"
  proof (cases "od_contains key ?c2")
    case True
    then have c: "od_contains key (cache ?s1)"
      using od_contains_tl[of key "cache ?s1"] by (auto split: if_splits)
    then have "?c2 = cache ?s1" by simp
    with length_od_del_less[OF c] l1 show ?thesis by simp
  next
    case False
    then have "od_del key ?c2 = ?c2" by (rule od_del_absent)
    moreover have "int (length ?c2) + 1 \<le> max_size s"
    proof (cases ?full)
      case True
      then have "cache ?s1 \<noteq> []" using assms by (auto simp: cache_inv_def sweep_fields)
      then have "int (length (tl (cache ?s1))) + 1 = int (length (cache ?s1))"
        by (rule length_tl_int)
      with True show ?thesis by (simp add: sweep_fields(1) del: length_tl)
    next
      case f: False
      then have "od_contains key (cache ?s1) \<or> int (length (cache ?s1)) < max_size s"
        using l1 by (auto simp: sweep_fields)
      with False f show ?thesis by auto
    qed
    ultimately show ?thesis by simp
  qed
  from dist len assms show ?thesis by (simp add: cache_inv_def cache ms)
qed

lemma cache_inv_set:
  assumes "cache_inv s" "TTLCache_set ct sn key val ttl s = Inr s'"
  shows "cache_inv s' \<and> max_size s' = max_size s"
proof -
  from assms(2) have ttl: "0 \<le> (case ttl of Some t \<Rightarrow> t | None \<Rightarrow> default_ttl s)"
    by (auto simp: TTLCache_set_def Let_def split: if_splits)
  from set_refines_spec[OF assms(1) ttl, of ct sn key val] assms(2)
  have "s' = set_spec sn key (val, ct + of_int (min (case ttl of Some t \<Rightarrow> t | None \<Rightarrow> default_ttl s) MAX_TTL)) s"
    by simp
  then show ?thesis using cache_inv_set_spec[OF assms(1)]
    by (simp add: set_spec_def Let_def sweep_fields)
qed

lemma get_cases:
  "TTLCache_get now key s = (None, s\<lparr>misses := misses s + 1\<rparr>)
   \<or> TTLCache_get now key s = (None, s\<lparr>cache := od_del key (cache s), evictions := evictions s + 1, misses := misses s + 1\<rparr>)
   \<or> (\<exists>v e. map_of (cache s) key = Some (v, e) \<and> now \<le> e
        \<and> TTLCache_get now key s = (Some v, s\<lparr>cache := od_del key (cache s) @ [(key, (v, e))], hits := hits s + 1\<rparr>))"
  by (auto simp: TTLCache_get_def od_move_to_end_def is_expired_def Let_def split: option.splits)

lemma cache_inv_move:
  assumes "cache_inv s" "map_of (cache s) key = Some ve"
  shows "cache_inv (s\<lparr>cache := od_del key (cache s) @ [(key, ve)], hits := h\<rparr>)"
proof -
  have c: "od_contains key (cache s)" using assms(2) by (simp add: od_contains_map_of)
  have d: "distinct (map fst (cache s))" using assms(1) by (simp add: cache_inv_def)
  from length_od_del_distinct[OF d c] distinct_od_del[OF d, of key] keys_od_del[of key "cache s"] assms(1)
  show ?thesis by (simp add: cache_inv_def)
qed

lemma cache_inv_del:
  assumes "cache_inv s"
  shows "cache_inv (s\<lparr>cache := od_del key (cache s)\<rparr>)"
  using assms distinct_od_del[of "cache s" key] length_od_del_le[of key "cache s"]
  by (simp add: cache_inv_def)

lemma cache_inv_get:
  assumes "cache_inv s"
  shows "cache_inv (snd (TTLCache_get now key s)) \<and> max_size (snd (TTLCache_get now key s)) = max_size s"
  using get_cases[of now key s] cache_inv_move[OF assms] cache_inv_del[OF assms, of key] assms
  by (auto simp: cache_inv_def)

lemma cache_inv_apply_op:
  assumes "cache_inv s"
  shows "cache_inv (apply_op op s) \<and> max_size (apply_op op s) = max_size s"
proof (cases op)
  case (Get now key)
  then show ?thesis using cache_inv_get[OF assms] by simp
next
  case (Set ct sn key val ttl)
  then show ?thesis using cache_inv_set[OF assms] assms by (simp split: sum.splits)
next
  case (Delete key)
  then show ?thesis using cache_inv_del[OF assms, of key] assms by (simp add: TTLCache_delete_def)
next
  case Clear
  then show ?thesis using assms by (simp add: TTLCache_clear_def cache_inv_def)
qed

lemma cache_inv_run:
  "cache_inv s \<Longrightarrow> cache_inv (fold apply_op ops s) \<and> max_size (fold apply_op ops s) = max_size s"
proof (induction ops arbitrary: s)
  case Nil
  then show ?case by simp
next
  case (Cons op ops)
  from cache_inv_apply_op[OF Cons.prems, of op] Cons.IH[of "apply_op op s"]
  show ?case by simp
qed

lemma fresh_cache:
  assumes "TTLCache ms dt = Inr s0"
  shows "cache_inv s0" "max_size s0 = ms" "cache s0 = []" "evictions s0 = 0" "0 < ms"
  using assms by (auto simp: TTLCache_def cache_inv_def split: if_splits)

lemma sweep_nothing:
  assumes "\<forall>e \<in> set (cache s). sn \<le> snd (snd e)"
  shows "sweep_expired sn s = s"
proof -
  have "filter (\<lambda>e. \<not> sn > snd (snd e)) (cache s) = cache s"
    using assms by (auto simp: filter_id_conv)
  moreover have "filter (\<lambda>e. sn > snd (snd e)) (cache s) = []"
    using assms by (auto simp: filter_empty_conv)
  ultimately show ?thesis by (simp add: sweep_expired_def)
qed

lemma set_new_key_no_expiry:
  assumes inv: "cache_inv s" and t: "0 \<le> t"
    and live: "\<forall>e \<in> set (cache s). sn \<le> snd (snd e)"
    and new: "\<not> od_contains k (cache s)"
  shows "apply_op (Set ct sn k v (Some t)) s =
           (if int (length (cache s)) = max_size s
            then s\<lparr>cache := tl (cache s) @ [(k, (v, ct + of_int (min t MAX_TTL)))],
                   evictions := evictions s + 1\<rparr>
            else s\<lparr>cache := cache s @ [(k, (v, ct + of_int (min t MAX_TTL)))]\<rparr>)"
proof -
  have "\<not> od_contains k (tl (cache s))" using new od_contains_tl by blast
  then have "od_del k (tl (cache s)) = tl (cache s)" by (rule od_del_absent)
  moreover have "od_del k (cache s) = cache s" using new by (rule od_del_absent)
  ultimately show ?thesis
    using set_refines_spec[OF inv, of "Some t" ct sn k v] t new
    by (simp add: set_spec_def sweep_nothing[OF live] Let_def)
qed

lemma insert_run:
  assumes fresh: "TTLCache ms dt = Inr s0"
  shows "distinct (map ins_key ins) \<Longrightarrow> none_expires ins \<Longrightarrow>
           map fst (cache (fold apply_op (map ins_op ins) s0))
             = drop (length ins - nat ms) (map ins_key ins)
         \<and> evictions (fold apply_op (map ins_op ins) s0) = length ins - nat ms
         \<and> (\<forall>e \<in> set (cache (fold apply_op (map ins_op ins) s0)).
               \<exists>x \<in> set ins. snd (snd e) = ins_expiry x)"
proof (induction ins rule: rev_induct)
  case Nil
  then show ?case using fresh_cache[OF fresh] by simp
next
  case (snoc x ins)
  let ?s = "fold apply_op (map ins_op ins) s0"
  obtain ct sn k v t where x: "x = (ct, sn, k, v, t)" by (cases x)
  from snoc.prems have d: "distinct (map ins_key ins)" and kn: "k \<notin> set (map ins_key ins)"
    by (auto simp: x ins_key_def)
  from snoc.prems(2) have ne: "none_expires ins" by (auto simp: none_expires_def)
  from snoc.prems(2) have t: "0 \<le> t" by (auto simp: none_expires_def x ins_ttl_def)
  from snoc.prems(2) have sw: "\<forall>y \<in> set ins. sn \<le> ins_expiry y"
    by (auto simp: none_expires_def x ins_sweep_def)
  from snoc.IH[OF d ne] have
    keys: "map fst (cache ?s) = drop (length ins - nat ms) (map ins_key ins)" and
    ev: "evictions ?s = length ins - nat ms" and
    ex: "\<forall>e \<in> set (cache ?s). \<exists>x \<in> set ins. snd (snd e) = ins_expiry x"
    by simp_all
  have inv: "cache_inv ?s" and ms: "max_size ?s = ms"
    using cache_inv_run[OF fresh_cache(1)[OF fresh], of "map ins_op ins"] fresh_cache(2)[OF fresh]
    by simp_all
  have pos: "0 < ms" by (rule fresh_cache(5)[OF fresh])
  have live: "\<forall>e \<in> set (cache ?s). sn \<le> snd (snd e)" using ex sw by force
  have new: "\<not> od_contains k (cache ?s)"
    using kn keys in_set_dropD[of k "length ins - nat ms" "map ins_key ins"]
    by (auto simp: od_contains_def)
  have len: "length (cache ?s) = length ins - (length ins - nat ms)"
    using arg_cong[OF keys, of length] by simp
  have step: "fold apply_op (map ins_op (ins @ [x])) s0 = apply_op (Set ct sn k v (Some t)) ?s"
    by (simp add: x ins_op_def)
  note eq = set_new_key_no_expiry[OF inv t live new, of ct v]
  show ?case
  proof (cases "int (length (cache ?s)) = max_size ?s")
    case True
    then have ge: "nat ms \<le> length ins" using len ms pos by linarith
    have ne0: "cache ?s \<noteq> []" using True ms pos by auto
    have "map fst (tl (cache ?s)) = drop (Suc (length ins - nat ms)) (map ins_key ins)"
      using keys by (simp add: map_tl drop_Suc tl_drop)
    moreover have "Suc (length ins) - nat ms = Suc (length ins - nat ms)" using ge by simp
    moreover have "length ins - nat ms < length ins" using ge pos by simp
    ultimately have k': "map fst (tl (cache ?s) @ [(k, (v, ct + of_int (min t MAX_TTL)))])
         = drop (length (ins @ [x]) - nat ms) (map ins_key (ins @ [x]))"
      by (simp add: x ins_key_def)
    have e': "\<forall>e \<in> set (tl (cache ?s) @ [(k, (v, ct + of_int (min t MAX_TTL)))]).
               \<exists>y \<in> set (ins @ [x]). snd (snd e) = ins_expiry y"
      using ex ne0 by (auto simp: x ins_expiry_def dest: list.set_sel(2))
    have ev': "evictions ?s + 1 = length (ins @ [x]) - nat ms" using ev ge by simp
    show ?thesis unfolding step eq using True k' e' ev' by simp
  next
    case False
    then have lt: "length ins < nat ms" using len ms pos by linarith
    have k': "map fst (cache ?s @ [(k, (v, ct + of_int (min t MAX_TTL)))])
         = drop (length (ins @ [x]) - nat ms) (map ins_key (ins @ [x]))"
      using keys lt by (simp add: x ins_key_def)
    have e': "\<forall>e \<in> set (cache ?s @ [(k, (v, ct + of_int (min t MAX_TTL)))]).
               \<exists>y \<in> set (ins @ [x]). snd (snd e) = ins_expiry y"
      using ex by (auto simp: x ins_expiry_def)
    have ev': "evictions ?s = length (ins @ [x]) - nat ms" using ev lt by simp
    show ?thesis unfolding step eq using False k' e' ev' by simp
  qed
qed

lemma filter_same_length: "length (filter P xs) = length xs \<Longrightarrow> filter P xs = xs"
proof (induction xs)
  case Nil
  then show ?case by simp
next
  case (Cons x xs)
  have le: "length (filter P xs) \<le> length xs" by simp
  show ?case
  proof (cases "P x")
    case True
    with Cons show ?thesis by simp
  next
    case False
    with Cons.prems le show ?thesis by simp
  qed
qed

lemma get_protects:
  assumes inv: "cache_inv s" and two: "2 \<le> length (cache s)"
    and hit: "TTLCache_get now k s = (Some v, s1)"
  shows "\<exists>e. map_of (cache s) k = Some (v, e)
           \<and> cache s1 = od_del k (cache s) @ [(k, (v, e))]
           \<and> fst (hd (cache s1)) \<noteq> k
           \<and> (\<forall>ct sn k' v' ttl s2.
                 sn \<le> e \<and> TTLCache_set ct sn k' v' ttl s1 = Inr s2 \<longrightarrow> od_contains k (cache s2))"
proof -
  from get_cases[of now k s] hit obtain e where
    m: "map_of (cache s) k = Some (v, e)" and
    s1: "s1 = s\<lparr>cache := od_del k (cache s) @ [(k, (v, e))], hits := hits s + 1\<rparr>"
    by auto
  let ?rest = "od_del k (cache s)"
  have c: "od_contains k (cache s)" using m by (simp add: od_contains_map_of)
  have d: "distinct (map fst (cache s))" using inv by (simp add: cache_inv_def)
  have ne: "?rest \<noteq> []" using length_od_del_distinct[OF d c] two by auto
  then have "hd ?rest \<in> set ?rest" by simp
  then have hdk: "fst (hd ?rest) \<noteq> k" by (simp add: od_del_def)
  have c1: "cache s1 = ?rest @ [(k, (v, e))]" by (simp add: s1)
  have inv1: "cache_inv s1" unfolding s1 by (rule cache_inv_move[OF inv m])
  have keep: "od_contains k (cache s2)"
    if sn: "sn \<le> e" and set: "TTLCache_set ct sn k' v' ttl s1 = Inr s2"
    for ct sn k' v' ttl s2
  proof -
    let ?t0 = "case ttl of Some t \<Rightarrow> t | None \<Rightarrow> default_ttl s1"
    from set have ttl: "0 \<le> ?t0" by (auto simp: TTLCache_set_def Let_def split: if_splits)
    let ?s1 = "sweep_expired sn s1"
    let ?full = "\<not> od_contains k' (cache ?s1) \<and> int (length (cache ?s1)) = max_size ?s1"
    let ?c2 = "if ?full then tl (cache ?s1) else cache ?s1"
    from set_refines_spec[OF inv1 ttl, of ct sn k' v'] set
    have s2: "cache s2 = od_del k' ?c2 @ [(k', (v', ct + of_int (min ?t0 MAX_TTL)))]"
      by (auto simp: set_spec_def Let_def)
    have in1: "(k, (v, e)) \<in> set (cache ?s1)" using sn by (simp add: sweep_fields c1)
    have in2: "(k, (v, e)) \<in> set ?c2"
    proof (cases ?full)
      case True
      then have "int (length (cache ?s1)) = max_size s1" by (simp add: sweep_fields)
      moreover have "int (length (cache s1)) \<le> max_size s1" using inv1 by (simp add: cache_inv_def)
      moreover have "length (cache ?s1) \<le> length (cache s1)" by (simp add: sweep_fields)
      ultimately have "length (cache ?s1) = length (cache s1)" by linarith
      then have "cache ?s1 = cache s1" by (simp add: sweep_fields filter_same_length)
      then have "tl (cache ?s1) = tl ?rest @ [(k, (v, e))]" using ne by (simp add: c1)
      with True show ?thesis by simp
    next
      case False
      then have "?c2 = cache ?s1" by (simp only: if_False)
      with in1 show ?thesis by (simp only:)
    qed
    show ?thesis
    proof (cases "k' = k")
      case True
      then show ?thesis by (simp add: s2 od_contains_def)
    next
      case False
      with in2 have "(k, (v, e)) \<in> set (od_del k' ?c2)" by (simp add: od_del_def)
      then have "fst (k, (v, e)) \<in> fst ` set (od_del k' ?c2)" by (rule imageI)
      then show ?thesis unfolding od_contains_def s2 by simp
    qed
  qed
  from m c1 hdk ne keep show ?thesis by (intro exI[of _ e]) auto
qed

text \<open>
  Claim C4, amended in its last two parts. Let \<open>s\<close> be any state reached from a fresh
  cache by a run of \<open>get\<close>, \<open>set\<close>, \<open>delete\<close> and \<open>clear\<close> calls. Then (1) the entry
  count of \<open>s\<close> is at most \<open>maxSize\<close>; (2) a \<open>set\<close> with a non-negative TTL does what
  \<open>set_spec\<close> says: it sweeps every expired entry, recording an eviction for each, then,
  if the key is new and the cache is at \<open>maxSize\<close>, evicts exactly the head of the
  recency order, recording one eviction, and then inserts the entry as the most recently
  used; (3) inserting \<open>maxSize + 1\<close> distinct keys into the fresh cache, none of whose
  entries has expired at any sweep of the run, records exactly one eviction, of the first
  key inserted; (4) a \<open>get\<close> that hits a key of a cache holding at least two entries moves
  the key to the most recently used position, away from the head, and the next \<open>set\<close>
  made before the entry expires keeps the key.
\<close>

theorem lru_bounded_cache:
  assumes "TTLCache ms dt = Inr s0" and "s = fold apply_op ops s0"
  shows "int (length (cache s)) \<le> ms
     \<and> (0 \<le> (case ttl of Some t \<Rightarrow> t | None \<Rightarrow> default_ttl s) \<longrightarrow>
          TTLCache_set ct sn key val ttl s
            = Inr (set_spec sn key
                    (val, ct + of_int (min (case ttl of Some t \<Rightarrow> t | None \<Rightarrow> default_ttl s) MAX_TTL)) s))
     \<and> (distinct (map ins_key ins) \<and> none_expires ins \<and> length ins = nat ms + 1 \<longrightarrow>
          evictions (fold apply_op (map ins_op ins) s0) = 1
          \<and> map fst (cache (fold apply_op (map ins_op ins) s0)) = tl (map ins_key ins))
     \<and> (2 \<le> length (cache s) \<and> TTLCache_get now k s = (Some v, s1) \<longrightarrow>
          (\<exists>e. map_of (cache s) k = Some (v, e)
             \<and> cache s1 = od_del k (cache s) @ [(k, (v, e))]
             \<and> fst (hd (cache s1)) \<noteq> k
             \<and> (\<forall>ct' sn' k' v' ttl' s2.
                   sn' \<le> e \<and> TTLCache_set ct' sn' k' v' ttl' s1 = Inr s2
                   \<longrightarrow> od_contains k (cache s2))))"
proof -
  have inv: "cache_inv s" and ms: "max_size s = ms"
    using cache_inv_run[OF fresh_cache(1)[OF assms(1)], of ops] fresh_cache(2)[OF assms(1)] assms(2)
    by simp_all
  have a: "int (length (cache s)) \<le> ms" using inv ms by (simp add: cache_inv_def)
  have b: "0 \<le> (case ttl of Some t \<Rightarrow> t | None \<Rightarrow> default_ttl s) \<longrightarrow>
          TTLCache_set ct sn key val ttl s
            = Inr (set_spec sn key
                    (val, ct + of_int (min (case ttl of Some t \<Rightarrow> t | None \<Rightarrow> default_ttl s) MAX_TTL)) s)"
    using set_refines_spec[OF inv] by blast
  have c: "distinct (map ins_key ins) \<and> none_expires ins \<and> length ins = nat ms + 1 \<longrightarrow>
          evictions (fold apply_op (map ins_op ins) s0) = 1
          \<and> map fst (cache (fold apply_op (map ins_op ins) s0)) = tl (map ins_key ins)"
    using insert_run[OF assms(1), of ins] by (auto simp: drop_Suc)
  have d: "2 \<le> length (cache s) \<and> TTLCache_get now k s = (Some v, s1) \<longrightarrow>
          (\<exists>e. map_of (cache s) k = Some (v, e)
             \<and> cache s1 = od_del k (cache s) @ [(k, (v, e))]
             \<and> fst (hd (cache s1)) \<noteq> k
             \<and> (\<forall>ct' sn' k' v' ttl' s2.
                   sn' \<le> e \<and> TTLCache_set ct' sn' k' v' ttl' s1 = Inr s2
                   \<longrightarrow> od_contains k (cache s2)))"
    using get_protects[OF inv, of now k v s1] by blast
  from a b c d show ?thesis by (intro conjI)
qed

theorem lru_bounded_cache_witness:
  "TTLCache 2 300 = Inr (cache_state 2 [] 0 0 0)
   \<and> fold apply_op [Set 0 0 ''a'' 1 None, Set 1 1 ''b'' 2 None] (cache_state 2 [] 0 0 0)
       = cache_ab
   \<and> int (length (cache cache_ab)) \<le> 2
   \<and> TTLCache_set 2 2 ''c'' 3 (Some 10) cache_ab = Inr (set_spec 2 ''c'' (3, 12) cache_ab)
   \<and> distinct (map ins_key three_inserts) \<and> none_expires three_inserts
   \<and> evictions (fold apply_op (map ins_op three_inserts) (cache_state 2 [] 0 0 0)) = 1
   \<and> map fst (cache (fold apply_op (map ins_op three_inserts) (cache_state 2 [] 0 0 0)))
       = [''b'', ''c'']
   \<and> TTLCache_get 3 ''a'' cache_ab = (Some 1, cache_ba)
   \<and> fst (hd (cache cache_ba)) \<noteq> ''a''
   \<and> TTLCache_set 2 2 ''c'' 3 (Some 10) cache_ba
       = Inr (cache_state 2 [(''a'', 1, 300), (''c'', 3, 12)] 1 0 1)
   \<and> od_contains ''a'' (cache (cache_state 2 [(''a'', 1, 300), (''c'', 3, 12)] 1 0 1))"
proof -
  have f: "TTLCache 2 300 = Inr (cache_state 2 [] 0 0 0)"
    by (simp add: TTLCache_def MAX_TTL_def)
  have r: "cache_ab
       = fold apply_op [Set 0 0 ''a'' 1 None, Set 1 1 ''b'' 2 None] (cache_state 2 [] 0 0 0)"
    by (simp add: TTLCache_set_def TTLCache_get_def evict_expired_def expired_keys_def
        evict_lru_def od_contains_def od_setitem_def od_move_to_end_def od_del_def
        is_expired_def MAX_TTL_def Let_def)
  have h2: "0 \<le> (case Some 10 of Some t \<Rightarrow> t | None \<Rightarrow> default_ttl cache_ab)"
    by simp
  have h3: "distinct (map ins_key three_inserts) \<and> none_expires three_inserts
            \<and> length three_inserts = nat 2 + 1"
    by (simp add: ins_key_def none_expires_def ins_ttl_def ins_sweep_def ins_expiry_def
        MAX_TTL_def)
  have h4: "2 \<le> length (cache cache_ab) \<and> TTLCache_get 3 ''a'' cache_ab = (Some 1, cache_ba)"
    by (simp add: TTLCache_set_def TTLCache_get_def evict_expired_def expired_keys_def
        evict_lru_def od_contains_def od_setitem_def od_move_to_end_def od_del_def
        is_expired_def MAX_TTL_def Let_def)
  have h5: "(2::real) \<le> 300
            \<and> TTLCache_set 2 2 ''c'' 3 (Some 10) cache_ba
                = Inr (cache_state 2 [(''a'', 1, 300), (''c'', 3, 12)] 1 0 1)"
    by (simp add: TTLCache_set_def TTLCache_get_def evict_expired_def expired_keys_def
        evict_lru_def od_contains_def od_setitem_def od_move_to_end_def od_del_def
        is_expired_def MAX_TTL_def Let_def)
  note w = lru_bounded_cache[OF f r, of "Some 10" 2 2 "''c''" 3 three_inserts 3 "''a''" 1
      cache_ba]
  from w have a: "int (length (cache cache_ab)) \<le> 2" by blast
  from w h2 have b:
    "TTLCache_set 2 2 ''c'' 3 (Some 10) cache_ab = Inr (set_spec 2 ''c'' (3, 12) cache_ab)"
    by (simp add: MAX_TTL_def)
  from w h3 have c:
    "evictions (fold apply_op (map ins_op three_inserts) (cache_state 2 [] 0 0 0)) = 1
     \<and> map fst (cache (fold apply_op (map ins_op three_inserts) (cache_state 2 [] 0 0 0)))
         = tl (map ins_key three_inserts)"
    by blast
  from w h4 obtain e where e: "map_of (cache cache_ab) ''a'' = Some (1, e)"
    "fst (hd (cache cache_ba)) \<noteq> ''a''"
    "\<forall>ct' sn' k' v' ttl' s2.
        sn' \<le> e \<and> TTLCache_set ct' sn' k' v' ttl' cache_ba = Inr s2
        \<longrightarrow> od_contains ''a'' (cache s2)"
    by blast
  from e(1) have "e = 300" by simp
  with e(3) h5
  have d: "od_contains ''a'' (cache (cache_state 2 [(''a'', 1, 300), (''c'', 3, 12)] 1 0 1))"
    by blast
  from f r a b c h3 h4 h5 e(2) d show ?thesis by (simp add: ins_key_def)
qed

text \<open>The claim as written, without the two provisos. Three insertions into a cache of
  size two whose entries expire between them leave two evictions, both of them sweeps;
  and in a cache of size one the key just read by \<open>get\<close> is the next one evicted.\<close>

theorem lru_expiry_and_single_entry_counterexample:
  "TTLCache 2 300 = Inr (cache_state 2 [] 0 0 0)
   \<and> fold apply_op [Set 0 0 ''a'' 1 (Some 1), Set 5 5 ''b'' 2 (Some 1)] (cache_state 2 [] 0 0 0)
       = cache_state 2 [(''b'', 2, 6)] 0 0 1
   \<and> fold apply_op
        [Set 0 0 ''a'' 1 (Some 1), Set 5 5 ''b'' 2 (Some 1), Set 10 10 ''c'' 3 (Some 1)]
        (cache_state 2 [] 0 0 0)
       = cache_state 2 [(''c'', 3, 11)] 0 0 2
   \<and> TTLCache 1 300 = Inr (cache_state 1 [] 0 0 0)
   \<and> fold apply_op [Set 0 0 ''a'' 1 None, Get 0 ''a''] (cache_state 1 [] 0 0 0)
       = cache_state 1 [(''a'', 1, 300)] 1 0 0
   \<and> fold apply_op [Set 0 0 ''a'' 1 None, Get 0 ''a'', Set 0 0 ''b'' 2 None]
        (cache_state 1 [] 0 0 0)
       = cache_state 1 [(''b'', 2, 300)] 1 0 1"
  by (simp add: TTLCache_def TTLCache_set_def TTLCache_get_def evict_expired_def
      expired_keys_def evict_lru_def od_contains_def od_setitem_def od_move_to_end_def
      od_del_def is_expired_def MAX_TTL_def Let_def)

subsection \<open>RateLimiter: admission\<close>

lemma consume_rate: "rate (snd (consume n now b)) = rate b"
  by (simp add: consume_def Let_def)

lemma wait_time_ok: "rate b \<noteq> 0 \<Longrightarrow> \<exists>w. wait_time b = Inr w"
  by (simp add: wait_time_def)

lemma acquire_loop_no_error:
  "rate bucket \<noteq> 0 \<Longrightarrow> \<exists>r. fst (acquire_loop timeout start_time now bucket) = Inr r"
proof (induction timeout start_time now bucket rule: acquire_loop.induct)
  case (1 timeout start_time now bucket)
  let ?b1 = "snd (consume 1 now bucket)"
  have r1: "rate ?b1 \<noteq> 0" using "1.prems" by (simp add: consume_rate)
  then obtain w where w: "wait_time ?b1 = Inr w" using wait_time_ok by blast
  show ?case
  proof (cases "fst (consume 1 now bucket) \<or> timeout \<le> now - start_time")
    case True
    then show ?thesis by (subst acquire_loop.simps) (auto simp: Let_def)
  next
    case False
    let ?wt = "max MIN_SLEEP (min w (timeout - (now - start_time)))"
    from False w r1 "1.IH"[of ?b1 "now - start_time" w ?wt]
    have "\<exists>r. fst (acquire_loop timeout start_time (if 0 < ?wt then now + ?wt else now) ?b1) = Inr r"
      by simp
    with False w show ?thesis by (subst acquire_loop.simps) (simp add: Let_def)
  qed
qed

lemma acquire_body_waiters:
  "waiters (snd (snd (acquire_body api_name timeout now t_wait s))) = waiters s"
  by (simp add: acquire_body_def Let_def split: option.splits)

text \<open>On a bucket with a non-zero rate the \<^verbatim>\<open>try\<close> block raises in one case only: the
  backoff deadline lies after the first clock read of the backoff check and before the
  second, so that \<^verbatim>\<open>time.sleep\<close> is given a negative length.\<close>

lemma acquire_body_error_iff:
  assumes "buckets s api_name = Some b" "rate b \<noteq> 0" "0 \<le> timeout"
  shows "(\<exists>e. fst (acquire_body api_name timeout now t_wait s) = Inl e)
         \<longleftrightarrow> now < backoff_get s api_name \<and> backoff_get s api_name < t_wait"
proof -
  have loop: "\<exists>r. fst (acquire_loop timeout now t b) = Inr r" for t
    using assms(2) by (rule acquire_loop_no_error)
  show ?thesis
  proof (cases "now < backoff_get s api_name")
    case False
    with loop[of now] assms(1) show ?thesis
      by (auto simp: acquire_body_def Let_def)
  next
    case True
    show ?thesis
    proof (cases "backoff_get s api_name < t_wait")
      case race: True
      with True assms show ?thesis by (simp add: acquire_body_def Let_def)
    next
      case False
      with True loop[of "t_wait + (backoff_get s api_name - t_wait)"] assms(1) show ?thesis
        by (auto simp: acquire_body_def Let_def)
    qed
  qed
qed

lemma acquire_body_race:
  assumes "buckets s api_name = Some b" "0 \<le> timeout"
    and "now < backoff_get s api_name" "backoff_get s api_name < t_wait"
  shows "acquire_body api_name timeout now t_wait s = (Inl ValueError, t_wait, s)"
  using assms by (simp add: acquire_body_def Let_def)

lemma acquire_unknown_or_negative:
  assumes "buckets s api_name = None \<or> timeout < 0"
  shows "acquire api_name timeout now t_wait s = (Inl ValueError, now, s)"
  using assms by (auto simp: acquire_def)

lemma acquire_saturated:
  assumes "buckets s api_name = Some b" "0 \<le> timeout" "waiters s api_name = Some 0"
  shows "acquire api_name timeout now t_wait s = (Inr False, now, s)"
  using assms by (simp add: acquire_def Let_def)

lemma acquire_releases:
  assumes "buckets s api_name = Some b" "0 \<le> timeout" "waiters s api_name = Some (Suc k)"
  shows "waiters (snd (snd (acquire api_name timeout now t_wait s))) = waiters s"
proof -
  let ?s1 = "s\<lparr>waiters := (waiters s)(api_name \<mapsto> k)\<rparr>"
  let ?t = "if timeout > MAX_TIMEOUT then MAX_TIMEOUT else timeout"
  let ?r = "acquire_body api_name ?t now t_wait ?s1"
  have "waiters (snd (snd ?r)) = (waiters s)(api_name \<mapsto> k)"
    by (simp add: acquire_body_waiters)
  then have "waiters (release api_name (snd (snd ?r))) = (waiters s)(api_name \<mapsto> Suc k)"
    by (simp add: release_def)
  also have "\<dots> = waiters s" using assms(3) by (rule map_upd_triv)
  finally show ?thesis using assms by (simp add: acquire_def Let_def)
qed

text \<open>For a configured service with a positive rate and a valid timeout, \<^verbatim>\<open>acquire\<close>
  raises exactly when it has taken a waiter slot and the backoff deadline lies between
  the two clock reads of the backoff check; the raise is the \<^verbatim>\<open>ValueError\<close> of
  \<^verbatim>\<open>time.sleep\<close>, and the limiter is as it was.\<close>

lemma acquire_error_iff:
  assumes "buckets s api_name = Some b" "rate b \<noteq> 0" "waiters s api_name = Some n" "0 \<le> timeout"
  shows "(\<exists>e. fst (acquire api_name timeout now t_wait s) = Inl e)
         \<longleftrightarrow> n \<noteq> 0 \<and> now < backoff_get s api_name \<and> backoff_get s api_name < t_wait"
proof (cases n)
  case 0
  with assms show ?thesis by (auto simp: acquire_def Let_def)
next
  case (Suc k)
  let ?s1 = "s\<lparr>waiters := (waiters s)(api_name \<mapsto> k)\<rparr>"
  let ?t = "if timeout > MAX_TIMEOUT then MAX_TIMEOUT else timeout"
  have t: "0 \<le> ?t" using assms(4) by (simp add: MAX_TIMEOUT_def)
  have b: "buckets ?s1 api_name = Some b" using assms(1) by simp
  have g: "backoff_get ?s1 api_name = backoff_get s api_name" by (simp add: backoff_get_def)
  have "(\<exists>e. fst (acquire_body api_name ?t now t_wait ?s1) = Inl e)
         \<longleftrightarrow> now < backoff_get s api_name \<and> backoff_get s api_name < t_wait"
    using acquire_body_error_iff[OF b assms(2) t, of now t_wait] by (simp only: g)
  moreover have "fst (acquire api_name timeout now t_wait s)
                   = fst (acquire_body api_name ?t now t_wait ?s1)"
    using Suc assms by (simp add: acquire_def Let_def)
  ultimately show ?thesis using Suc by simp
qed

lemma acquire_race:
  assumes "buckets s api_name = Some b" "waiters s api_name = Some (Suc k)" "0 \<le> timeout"
    and "now < backoff_get s api_name" "backoff_get s api_name < t_wait"
  shows "acquire api_name timeout now t_wait s = (Inl ValueError, t_wait, s)"
proof -
  let ?s1 = "s\<lparr>waiters := (waiters s)(api_name \<mapsto> k)\<rparr>"
  let ?t = "if timeout > MAX_TIMEOUT then MAX_TIMEOUT else timeout"
  have t: "0 \<le> ?t" using assms(3) by (simp add: MAX_TIMEOUT_def)
  have b: "buckets ?s1 api_name = Some b" using assms(1) by simp
  have g: "backoff_get ?s1 api_name = backoff_get s api_name" by (simp add: backoff_get_def)
  have body: "acquire_body api_name ?t now t_wait ?s1 = (Inl ValueError, t_wait, ?s1)"
    using acquire_body_race[OF b t, of now t_wait] assms(4,5) by (simp only: g)
  have "(waiters s)(api_name \<mapsto> Suc k) = waiters s" using assms(2) by (rule map_upd_triv)
  then have rel: "release api_name ?s1 = s" by (simp add: release_def)
  have "acquire api_name timeout now t_wait s
          = (fst (acquire_body api_name ?t now t_wait ?s1),
             fst (snd (acquire_body api_name ?t now t_wait ?s1)),
             release api_name (snd (snd (acquire_body api_name ?t now t_wait ?s1))))"
    using assms(1,2,3) by (simp add: acquire_def Let_def)
  then show ?thesis by (simp only: body rel fst_conv snd_conv)
qed

lemma acquire_clamp:
  assumes "MAX_TIMEOUT < timeout"
  shows "acquire api_name timeout now t_wait s = acquire api_name MAX_TIMEOUT now t_wait s"
  using assms by (simp add: acquire_def Let_def MAX_TIMEOUT_def)

lemma acquire_loop_rate:
  "rate (snd (snd (acquire_loop timeout start_time now bucket))) = rate bucket"
proof (induction timeout start_time now bucket rule: acquire_loop.induct)
  case (1 timeout start_time now bucket)
  let ?b1 = "snd (consume 1 now bucket)"
  show ?case
  proof (cases "fst (consume 1 now bucket) \<or> timeout \<le> now - start_time")
    case True
    then show ?thesis by (subst acquire_loop.simps) (auto simp: Let_def consume_rate)
  next
    case False
    show ?thesis
    proof (cases "wait_time ?b1")
      case (Inl e)
      with False show ?thesis by (subst acquire_loop.simps) (simp add: Let_def consume_rate)
    next
      case (Inr w)
      let ?wt = "max MIN_SLEEP (min w (timeout - (now - start_time)))"
      from False Inr "1.IH"[of ?b1 "now - start_time" w ?wt]
      have "rate (snd (snd (acquire_loop timeout start_time (if 0 < ?wt then now + ?wt else now) ?b1)))
              = rate ?b1"
        by simp
      with False Inr show ?thesis by (subst acquire_loop.simps) (simp add: Let_def consume_rate)
    qed
  qed
qed

lemma limiter_inv_acquire_body:
  assumes "limiter_inv s"
  shows "limiter_inv (snd (snd (acquire_body api_name timeout now t_wait s)))"
  using assms
  by (auto simp: limiter_inv_def acquire_body_def Let_def acquire_loop_rate split: option.splits)

lemma limiter_inv_release: "limiter_inv s \<Longrightarrow> limiter_inv (release api_name s)"
  by (auto simp: limiter_inv_def release_def split: option.splits)

lemma limiter_inv_acquire:
  assumes "limiter_inv s"
  shows "limiter_inv (snd (snd (acquire api_name timeout now t_wait s)))"
proof -
  have "limiter_inv (s\<lparr>waiters := (waiters s)(api_name \<mapsto> k)\<rparr>)" for k
    using assms by (auto simp: limiter_inv_def)
  then show ?thesis
    using assms
    by (auto simp: acquire_def Let_def limiter_inv_release limiter_inv_acquire_body
        split: option.splits)
qed

lemma limiter_inv_apply:
  assumes "limiter_inv s"
  shows "limiter_inv (apply_limiter_op op s)"
proof (cases op)
  case (Acquire api_name timeout now t_wait)
  then show ?thesis using limiter_inv_acquire[OF assms] by simp
next
  case (Report t1 t2 t3 api_name retry_after)
  then show ?thesis using assms
    by (simp add: report_rate_limit_error_def limiter_inv_def Let_def)
next
  case (Reset api_name)
  then show ?thesis using assms by (simp add: reset_backoff_def limiter_inv_def)
qed

lemma limiter_inv_run: "limiter_inv s \<Longrightarrow> limiter_inv (fold apply_limiter_op ops s)"
  by (induction ops arbitrary: s) (simp_all add: limiter_inv_apply)

lemma validate_limits_iff:
  "validate_limits l = None \<longleftrightarrow> (\<forall>x \<in> set l. \<not> bad_limit (snd x))"
  by (induction l rule: validate_limits.induct) (auto simp: bad_limit_def)

lemma validate_limits_error:
  "validate_limits l = Some e \<Longrightarrow> e = ValueError"
  by (induction l rule: validate_limits.induct) (auto split: if_splits)

lemma create_buckets_other:
  "name \<notin> fst ` set l \<Longrightarrow>
     buckets (create_buckets now l s) name = buckets s name
   \<and> backoff_until (create_buckets now l s) name = backoff_until s name
   \<and> waiters (create_buckets now l s) name = waiters s name"
  by (induction now l s rule: create_buckets.induct) (auto simp: Let_def)

lemma create_buckets_entry:
  "distinct (map fst l) \<Longrightarrow> (name, rpm) \<in> set l \<Longrightarrow>
     buckets (create_buckets now l s) name
       = Some (TokenBucket (num rpm / 60) (min 5 (num rpm / 12)) now)
   \<and> backoff_until (create_buckets now l s) name = Some 0
   \<and> waiters (create_buckets now l s) name = Some MAX_WAITERS_PER_API"
proof (induction now l s rule: create_buckets.induct)
  case (1 now s)
  then show ?case by simp
next
  case (2 now api_name rpm' rest s)
  show ?case
  proof (cases "(name, rpm) = (api_name, rpm')")
    case True
    with "2.prems" have "name \<notin> fst ` set rest" by auto
    from create_buckets_other[OF this] True show ?thesis by (simp add: Let_def)
  next
    case False
    with "2.prems" have "(name, rpm) \<in> set rest" "distinct (map fst rest)" by auto
    with "2.IH" show ?thesis by (simp add: Let_def)
  qed
qed

lemma create_buckets_dom:
  "dom (buckets (create_buckets now l s)) = dom (buckets s) \<union> fst ` set l"
  by (induction now l s rule: create_buckets.induct) (auto simp: Let_def)

lemma create_buckets_inv:
  "limiter_inv s \<Longrightarrow> \<forall>x \<in> set l. \<not> bad_limit (snd x) \<Longrightarrow> limiter_inv (create_buckets now l s)"
proof (induction now l s rule: create_buckets.induct)
  case (1 now s)
  then show ?case by simp
next
  case (2 now api_name rpm rest s)
  from "2.prems"(2) have "0 < num rpm" by (auto simp: bad_limit_def)
  then have "limiter_inv (s\<lparr>buckets := (buckets s)(api_name \<mapsto> TokenBucket (num rpm / 60) (min 5 (num rpm / 12)) now),
              backoff_until := (backoff_until s)(api_name \<mapsto> 0),
              waiters := (waiters s)(api_name \<mapsto> MAX_WAITERS_PER_API)\<rparr>)"
    using "2.prems"(1) by (auto simp: limiter_inv_def TokenBucket_def)
  with "2.IH" "2.prems"(2) show ?case by (simp add: Let_def)
qed

lemma RateLimiter_inv:
  assumes "RateLimiter now limits = Inr L"
  shows "limiter_inv L"
proof -
  from assms have v: "validate_limits (effective_limits limits) = None"
    and L: "L = create_buckets now (effective_limits limits)
                 \<lparr>buckets = Map.empty, backoff_until = Map.empty, waiters = Map.empty\<rparr>"
    by (auto simp: RateLimiter_def split: option.splits)
  have "limiter_inv \<lparr>buckets = Map.empty, backoff_until = Map.empty, waiters = Map.empty\<rparr>"
    by (simp add: limiter_inv_def)
  then show ?thesis unfolding L using v by (intro create_buckets_inv) (simp_all add: validate_limits_iff)
qed

lemma buckets_dom_apply:
  "dom (buckets (apply_limiter_op op s)) = dom (buckets s)"
proof (cases op)
  case (Acquire api_name timeout now t_wait)
  have b: "dom (buckets (snd (snd (acquire_body api_name t now t_wait s')))) = dom (buckets s')"
    for t s'
    by (auto simp: acquire_body_def Let_def split: option.splits)
  have r: "buckets (release api_name s') = buckets s'" for s'
    by (simp add: release_def split: option.splits)
  show ?thesis unfolding Acquire
    by (simp add: acquire_def Let_def b r split: option.splits)
next
  case (Report t1 t2 t3 api_name retry_after)
  then show ?thesis by (simp add: report_rate_limit_error_def Let_def)
next
  case (Reset api_name)
  then show ?thesis by (simp add: reset_backoff_def)
qed

lemma buckets_dom_run: "dom (buckets (fold apply_limiter_op ops s)) = dom (buckets s)"
  by (induction ops arbitrary: s) (simp_all add: buckets_dom_apply)

lemma RateLimiter_dom:
  assumes "RateLimiter now limits = Inr L"
  shows "dom (buckets L) = fst ` set (effective_limits limits)"
proof -
  from assms have "L = create_buckets now (effective_limits limits)
                 \<lparr>buckets = Map.empty, backoff_until = Map.empty, waiters = Map.empty\<rparr>"
    by (auto simp: RateLimiter_def split: option.splits)
  then show ?thesis by (simp only: create_buckets_dom) simp
qed

text \<open>
  On every state \<open>s\<close> that a limiter built by the constructor from \<open>limits\<close> reaches by
  a run of calls: \<^verbatim>\<open>acquire\<close> raises when the service is not in the configured mapping or
  the timeout is negative, and otherwise only in the case of \<open>acquire_error_iff\<close>. The
  validation raise is a \<^verbatim>\<open>ValueError\<close> and leaves the clock and the limiter as they
  were. When the clock does not move between the two reads of the backoff check
  (\<open>t_wait = now\<close>), the validation raises are the only ones.
\<close>

lemma acquire_raises_iff:
  assumes "RateLimiter t0 limits = Inr L0" and "s = fold apply_limiter_op ops L0"
  shows "(\<exists>e. fst (acquire api_name timeout now t_wait s) = Inl e)
            \<longleftrightarrow> api_name \<notin> fst ` set (effective_limits limits) \<or> timeout < 0
               \<or> (waiters s api_name \<noteq> Some 0
                   \<and> now < backoff_get s api_name \<and> backoff_get s api_name < t_wait)"
proof -
  have inv: "limiter_inv s"
    using limiter_inv_run[OF RateLimiter_inv[OF assms(1)]] assms(2) by simp
  have dom: "dom (buckets s) = fst ` set (effective_limits limits)"
    using buckets_dom_run[of ops L0] RateLimiter_dom[OF assms(1)] assms(2) by simp
  have unknown: "api_name \<notin> fst ` set (effective_limits limits) \<longleftrightarrow> buckets s api_name = None"
    using dom domIff[of api_name "buckets s"] by simp
  show ?thesis
  proof (cases "api_name \<notin> fst ` set (effective_limits limits) \<or> timeout < 0")
    case True
    then have "acquire api_name timeout now t_wait s = (Inl ValueError, now, s)"
      using acquire_unknown_or_negative[of s api_name timeout now t_wait] unknown by blast
    with True show ?thesis by simp
  next
    case False
    then obtain b where b: "buckets s api_name = Some b" and t: "0 \<le> timeout"
      using unknown by auto
    from inv b have "0 < rate b" "waiters s api_name \<noteq> None"
      by (auto simp: limiter_inv_def)
    then obtain n where n: "rate b \<noteq> 0" "waiters s api_name = Some n" by auto
    from acquire_error_iff[OF b n t, of now t_wait] False n(2) show ?thesis by simp
  qed
qed

lemma acquire_validation_raise:
  assumes "RateLimiter t0 limits = Inr L0" and "s = fold apply_limiter_op ops L0"
    and "api_name \<notin> fst ` set (effective_limits limits) \<or> timeout < 0"
  shows "acquire api_name timeout now t_wait s = (Inl ValueError, now, s)"
proof -
  have "dom (buckets s) = fst ` set (effective_limits limits)"
    using buckets_dom_run[of ops L0] RateLimiter_dom[OF assms(1)] assms(2) by simp
  then have "api_name \<notin> fst ` set (effective_limits limits) \<longleftrightarrow> buckets s api_name = None"
    using domIff[of api_name "buckets s"] by simp
  with assms(3) show ?thesis
    using acquire_unknown_or_negative[of s api_name timeout now t_wait] by blast
qed

lemma acquire_raises_iff_still_clock:
  assumes "RateLimiter t0 limits = Inr L0" and "s = fold apply_limiter_op ops L0"
  shows "(\<exists>e. fst (acquire api_name timeout now now s) = Inl e)
            \<longleftrightarrow> api_name \<notin> fst ` set (effective_limits limits) \<or> timeout < 0"
  using acquire_raises_iff[OF assms, of api_name timeout now now] by auto

text \<open>
  Claim C7. The claim has \<^verbatim>\<open>acquire\<close> raise exactly when the service is unknown or the
  timeout is negative, as the docstring of \<^verbatim>\<open>acquire\<close> does. The code raises in one
  more case. The limiter built from \<open>{x: 60}\<close> at clock 0 takes a throttle report at clock
  40, which sets the backoff deadline of \<open>x\<close> to 100. An \<^verbatim>\<open>acquire("x", 5)\<close> then reads
  the clock as 99.9 in the test \<^verbatim>\<open>backoff_time > time.time()\<close> and as 100.5 in
  \<^verbatim>\<open>wait_time = backoff_time - time.time()\<close>: the service is configured and the timeout
  is valid, \<^verbatim>\<open>time.sleep(-0.5)\<close> raises \<^verbatim>\<open>ValueError\<close>, and the call raises with the
  limiter as it was.
\<close>

theorem acquire_raises_when_deadline_passes:
  "RateLimiter 0 (Some [(''x'', PyInt 60)]) = Inr (limiter_x 5 0 100)
   \<and> fold apply_limiter_op [Report 40 40 40 ''x'' None] (limiter_x 5 0 100)
       = limiter_x 5 100 100
   \<and> acquire ''x'' 5 (999 / 10) (1005 / 10) (limiter_x 5 100 100)
       = (Inl ValueError, 1005 / 10, limiter_x 5 100 100)"
proof -
  have c: "RateLimiter 0 (Some [(''x'', PyInt 60)]) = Inr (limiter_x 5 0 100)"
    by (simp add: RateLimiter_def effective_limits_def TokenBucket_def MAX_WAITERS_PER_API_def
        Let_def)
  have r: "fold apply_limiter_op [Report 40 40 40 ''x'' None] (limiter_x 5 0 100)
       = limiter_x 5 100 100"
    by (simp add: report_rate_limit_error_def truthy_def backoff_get_def Let_def)
  have a: "acquire ''x'' 5 (999 / 10) (1005 / 10) (limiter_x 5 100 100)
       = (Inl ValueError, 1005 / 10, limiter_x 5 100 100)"
    by (simp add: acquire_def acquire_body_def release_def backoff_get_def MAX_TIMEOUT_def
        Let_def)
  from c r a show ?thesis by (intro conjI)
qed

text \<open>
  Claim C6. For a known service and a valid timeout, and every pair of clock reads: when
  the waiter semaphore has no free slot, \<open>acquire\<close> returns false at once, with the clock
  and the whole limiter (so every bucket) unchanged; when it has a free slot, then
  whatever the outcome of the call (true, false on timeout, false on backoff refusal, or
  a raise inside the \<^verbatim>\<open>try\<close> block), the semaphores after the call are the semaphores
  before it.
\<close>

theorem acquire_waiter_gate:
  assumes "buckets s api_name = Some b" and "0 \<le> timeout"
  shows "(waiters s api_name = Some 0
            \<longrightarrow> acquire api_name timeout now t_wait s = (Inr False, now, s))
       \<and> (waiters s api_name = Some (Suc k)
            \<longrightarrow> waiters (snd (snd (acquire api_name timeout now t_wait s))) = waiters s)"
  using acquire_saturated[OF assms] acquire_releases[OF assms] by blast

theorem acquire_waiter_gate_witness:
  "acquire ''x'' 5 0 0 (limiter_x 5 0 0) = (Inr False, 0, limiter_x 5 0 0)
   \<and> fst (acquire ''x'' 5 0 0 (limiter_x 5 0 7)) = Inr True
   \<and> waiters (snd (snd (acquire ''x'' 5 0 0 (limiter_x 5 0 7)))) ''x'' = Some 7
   \<and> fst (acquire ''x'' 0 0 0 (limiter_x 0 0 7)) = Inr False
   \<and> waiters (snd (snd (acquire ''x'' 0 0 0 (limiter_x 0 0 7)))) ''x'' = Some 7
   \<and> fst (acquire ''x'' 5 0 0 (limiter_x 5 100 7)) = Inr False
   \<and> waiters (snd (snd (acquire ''x'' 5 0 0 (limiter_x 5 100 7)))) ''x'' = Some 7
   \<and> fst (acquire ''x'' 5 99 101 (limiter_x 5 100 7)) = Inl ValueError
   \<and> waiters (snd (snd (acquire ''x'' 5 99 101 (limiter_x 5 100 7)))) ''x'' = Some 7"
  using acquire_waiter_gate[of "limiter_x 5 0 0" "''x''" "bucket_x 5" 5 0 0 6]
    acquire_waiter_gate[of "limiter_x 5 0 7" "''x''" "bucket_x 5" 5 0 0 6]
    acquire_waiter_gate[of "limiter_x 0 0 7" "''x''" "bucket_x 0" 0 0 0 6]
    acquire_waiter_gate[of "limiter_x 5 100 7" "''x''" "bucket_x 5" 5 0 0 6]
    acquire_waiter_gate[of "limiter_x 5 100 7" "''x''" "bucket_x 5" 5 99 101 6]
  by (simp add: acquire_def acquire_body_def release_def backoff_get_def
        acquire_loop.simps consume_def wait_time_def MAX_TIMEOUT_def MIN_SLEEP_def Let_def)

subsection \<open>RateLimiter: construction\<close>

lemma RateLimiter_cases:
  "RateLimiter now limits =
     (if \<exists>x \<in> set (effective_limits limits). bad_limit (snd x) then Inl ValueError
      else Inr (create_buckets now (effective_limits limits)
                 \<lparr>buckets = Map.empty, backoff_until = Map.empty, waiters = Map.empty\<rparr>))"
proof (cases "validate_limits (effective_limits limits)")
  case None
  then show ?thesis using validate_limits_iff[of "effective_limits limits"]
    by (simp add: RateLimiter_def)
next
  case (Some e)
  then have "e = ValueError" by (rule validate_limits_error)
  with Some show ?thesis using validate_limits_iff[of "effective_limits limits"]
    by (auto simp: RateLimiter_def)
qed

text \<open>
  Claim C10. The constructor raises \<open>ValueError\<close> exactly when some limit of the effective
  mapping is non-numeric, non-positive or above 10000, and returns a limiter otherwise.
  In a limiter it returns, every service \<open>name\<close> with limit \<open>rpm\<close> has a bucket with
  rate \<open>rpm / 60\<close> and capacity \<open>min 5 (rpm / 12)\<close>, full at creation; the capacity is
  positive and at most 5; the backoff deadline is the epoch and the semaphore has
  \<open>MAX_WAITERS_PER_API\<close> free slots. The services of the limiter are those of the mapping.
\<close>

theorem rate_limiter_construction:
  "(RateLimiter now limits = Inl ValueError
      \<longleftrightarrow> (\<exists>x \<in> set (effective_limits limits). bad_limit (snd x)))
   \<and> ((\<exists>L'. RateLimiter now limits = Inr L')
      \<longleftrightarrow> \<not> (\<exists>x \<in> set (effective_limits limits). bad_limit (snd x)))
   \<and> (RateLimiter now limits = Inr L \<and> distinct (map fst (effective_limits limits))
       \<and> (name, rpm) \<in> set (effective_limits limits) \<longrightarrow>
         buckets L name
           = Some \<lparr>rate = num rpm / 60, capacity = min 5 (num rpm / 12),
                   tokens = min 5 (num rpm / 12), last_update = now\<rparr>
         \<and> min 5 (num rpm / 12) \<le> 5 \<and> 0 < min 5 (num rpm / 12) \<and> 0 < num rpm / 60
         \<and> backoff_until L name = Some 0
         \<and> waiters L name = Some MAX_WAITERS_PER_API)
   \<and> (RateLimiter now limits = Inr L
         \<longrightarrow> dom (buckets L) = fst ` set (effective_limits limits))"
proof -
  have a: "RateLimiter now limits = Inl ValueError
      \<longleftrightarrow> (\<exists>x \<in> set (effective_limits limits). bad_limit (snd x))"
    by (simp add: RateLimiter_cases)
  have b: "(\<exists>L'. RateLimiter now limits = Inr L')
      \<longleftrightarrow> \<not> (\<exists>x \<in> set (effective_limits limits). bad_limit (snd x))"
    by (simp add: RateLimiter_cases)
  have c: "RateLimiter now limits = Inr L \<and> distinct (map fst (effective_limits limits))
       \<and> (name, rpm) \<in> set (effective_limits limits) \<longrightarrow>
         buckets L name
           = Some \<lparr>rate = num rpm / 60, capacity = min 5 (num rpm / 12),
                   tokens = min 5 (num rpm / 12), last_update = now\<rparr>
         \<and> min 5 (num rpm / 12) \<le> 5 \<and> 0 < min 5 (num rpm / 12) \<and> 0 < num rpm / 60
         \<and> backoff_until L name = Some 0
         \<and> waiters L name = Some MAX_WAITERS_PER_API"
  proof
    assume h: "RateLimiter now limits = Inr L \<and> distinct (map fst (effective_limits limits))
       \<and> (name, rpm) \<in> set (effective_limits limits)"
    then have ok: "\<not> (\<exists>x \<in> set (effective_limits limits). bad_limit (snd x))"
      and L: "L = create_buckets now (effective_limits limits)
                 \<lparr>buckets = Map.empty, backoff_until = Map.empty, waiters = Map.empty\<rparr>"
      by (auto simp: RateLimiter_cases split: if_splits)
    from ok h have "\<not> bad_limit rpm" by force
    then have pos: "0 < num rpm" by (simp add: bad_limit_def)
    from h create_buckets_entry[of "effective_limits limits" name rpm now]
    show "buckets L name
           = Some \<lparr>rate = num rpm / 60, capacity = min 5 (num rpm / 12),
                   tokens = min 5 (num rpm / 12), last_update = now\<rparr>
         \<and> min 5 (num rpm / 12) \<le> 5 \<and> 0 < min 5 (num rpm / 12) \<and> 0 < num rpm / 60
         \<and> backoff_until L name = Some 0
         \<and> waiters L name = Some MAX_WAITERS_PER_API"
      using pos by (simp add: L TokenBucket_def)
  qed
  have d: "RateLimiter now limits = Inr L
         \<longrightarrow> dom (buckets L) = fst ` set (effective_limits limits)"
    using RateLimiter_dom by blast
  from a b c d show ?thesis by (intro conjI)
qed

theorem rate_limiter_construction_witness:
  "RateLimiter 0 (Some [(''x'', PyInt 60), (''y'', PyFloat 6)]) = Inr limiter_xy
   \<and> RateLimiter 0 (Some [(''x'', PyInt 60), (''y'', PyOther)]) = Inl ValueError
   \<and> RateLimiter 0 (Some [(''x'', PyInt 0)]) = Inl ValueError
   \<and> RateLimiter 0 (Some [(''x'', PyInt 10001)]) = Inl ValueError
   \<and> buckets limiter_xy ''y''
       = Some \<lparr>rate = 1 / 10, capacity = 1 / 2, tokens = 1 / 2, last_update = 0\<rparr>"
proof -
  have e: "effective_limits (Some [(''x'', PyInt 60), (''y'', PyFloat 6)])
             = [(''x'', PyInt 60), (''y'', PyFloat 6)]"
    "effective_limits (Some [(''x'', PyInt 60), (''y'', PyOther)])
             = [(''x'', PyInt 60), (''y'', PyOther)]"
    "effective_limits (Some [(''x'', PyInt 0)]) = [(''x'', PyInt 0)]"
    "effective_limits (Some [(''x'', PyInt 10001)]) = [(''x'', PyInt 10001)]"
    by (simp_all add: effective_limits_def)
  have c: "RateLimiter 0 (Some [(''x'', PyInt 60), (''y'', PyFloat 6)]) = Inr limiter_xy"
    by (simp add: RateLimiter_def e TokenBucket_def MAX_WAITERS_PER_API_def Let_def)
  have b1: "RateLimiter 0 (Some [(''x'', PyInt 60), (''y'', PyOther)]) = Inl ValueError"
    using rate_limiter_construction[of 0 "Some [(''x'', PyInt 60), (''y'', PyOther)]"]
    by (simp add: e bad_limit_def)
  have b2: "RateLimiter 0 (Some [(''x'', PyInt 0)]) = Inl ValueError"
    using rate_limiter_construction[of 0 "Some [(''x'', PyInt 0)]"]
    by (simp add: e bad_limit_def)
  have b3: "RateLimiter 0 (Some [(''x'', PyInt 10001)]) = Inl ValueError"
    using rate_limiter_construction[of 0 "Some [(''x'', PyInt 10001)]"]
    by (simp add: e bad_limit_def)
  have g: "buckets limiter_xy ''y''
       = Some \<lparr>rate = 1 / 10, capacity = 1 / 2, tokens = 1 / 2, last_update = 0\<rparr>"
    using rate_limiter_construction[of 0 "Some [(''x'', PyInt 60), (''y'', PyFloat 6)]"
        limiter_xy "''y''" "PyFloat 6"] c
    by (simp add: e)
  from c b1 b2 b3 g show ?thesis by (intro conjI)
qed

subsection \<open>RateLimiter: backoff\<close>

text \<open>A report with no usable \<open>retry_after\<close>, for any three clock reads: the new deadline
  is the third read plus 60 when the first read finds no backoff active, and the third
  read plus \<open>min (2 * remaining) 300\<close> otherwise, the remaining duration being taken at
  the second read. Nothing else changes.\<close>

lemma report_exponential:
  assumes "\<not> truthy retry_after"
  shows "report_rate_limit_error t_test t_remaining t_set api_name retry_after s =
     s\<lparr>backoff_until := (backoff_until s)(api_name \<mapsto>
          t_set + (if t_test < backoff_get s api_name
                   then min (2 * (backoff_get s api_name - t_remaining)) 300 else 60))\<rparr>"
  using assms by (simp add: report_rate_limit_error_def Let_def mult.commute)

lemma report_idle:
  assumes "\<not> truthy retry_after" "backoff_get s api_name \<le> t_test"
  shows "backoff_get (report_rate_limit_error t_test t_remaining t_set api_name retry_after s)
           api_name = t_set + 60"
  using assms by (simp add: report_exponential backoff_get_def)

lemma report_active:
  assumes "\<not> truthy retry_after" "t_test < backoff_get s api_name"
  shows "backoff_get (report_rate_limit_error t_test t_remaining t_set api_name retry_after s)
           api_name = t_set + min (2 * (backoff_get s api_name - t_remaining)) 300"
  using assms by (simp add: report_exponential[OF assms(1)] backoff_get_def)

text \<open>When the backoff is still active at the second read, and the clock does not run
  backwards, a repeated report moves the deadline later or sets it to the cap.\<close>

lemma report_active_grows:
  assumes "\<not> truthy retry_after" "t_test < backoff_get s api_name"
    and "t_remaining < backoff_get s api_name" "t_remaining \<le> t_set"
  shows "backoff_get s api_name
           < backoff_get (report_rate_limit_error t_test t_remaining t_set api_name retry_after s)
               api_name
         \<or> backoff_get (report_rate_limit_error t_test t_remaining t_set api_name retry_after s)
               api_name = t_set + 300"
proof -
  have "backoff_get s api_name < t_set + min (2 * (backoff_get s api_name - t_remaining)) 300
        \<or> min (2 * (backoff_get s api_name - t_remaining)) 300 = 300"
    using assms(3,4) by (auto simp: min_def)
  then show ?thesis by (auto simp: report_active[OF assms(1,2)])
qed

lemma report_frame:
  "buckets (report_rate_limit_error t_test t_remaining t_set api_name retry_after s) = buckets s"
  "waiters (report_rate_limit_error t_test t_remaining t_set api_name retry_after s) = waiters s"
  "other \<noteq> api_name \<Longrightarrow>
     backoff_until (report_rate_limit_error t_test t_remaining t_set api_name retry_after s) other
       = backoff_until s other"
  by (simp_all add: report_rate_limit_error_def Let_def)

text \<open>\<open>reset_backoff\<close> sets the deadline to the epoch \<open>0\<close> and nothing else, and then an
  \<open>acquire\<close> entered at a clock \<open>now \<ge> 0\<close> that gets a waiter slot skips the backoff
  branch: its outcome, exit time and bucket are those of the polling loop on the bucket,
  started at \<open>now\<close>.\<close>

lemma reset_backoff_idle: "backoff_get (reset_backoff api_name s) api_name = 0"
  by (simp add: reset_backoff_def backoff_get_def)

lemma acquire_after_reset:
  assumes "0 \<le> now" "buckets s api_name = Some b" "waiters s api_name = Some (Suc k)"
    "0 \<le> timeout"
  shows "acquire api_name timeout now t_wait (reset_backoff api_name s) =
           (fst (acquire_loop (min timeout MAX_TIMEOUT) now now b),
            fst (snd (acquire_loop (min timeout MAX_TIMEOUT) now now b)),
            (reset_backoff api_name s)
              \<lparr>buckets := (buckets s)(api_name \<mapsto>
                  snd (snd (acquire_loop (min timeout MAX_TIMEOUT) now now b)))\<rparr>)"
proof -
  have t: "(if timeout > MAX_TIMEOUT then MAX_TIMEOUT else timeout) = min timeout MAX_TIMEOUT"
    by (simp add: min_def)
  have w: "(waiters s)(api_name \<mapsto> Suc k) = waiters s" using assms(3) by (rule map_upd_triv)
  show ?thesis
    using assms
    by (simp add: acquire_def acquire_body_def release_def reset_backoff_def backoff_get_def
        Let_def t w)
qed

text \<open>
  Claim C3. The claim has a repeated report during a backoff move the deadline later (or
  to the cap), as the comments of the exponential branch do (\<^verbatim>\<open>Double the backoff\<close>,
  \<^verbatim>\<open>start at 60s, max 300s\<close>). The code reads the clock three times. The limiter built
  from \<open>{x: 60}\<close> at clock 0 takes a first report at clock 40, which sets the deadline of
  \<open>x\<close> to 100. A second report reads the clock as 99.9 in the test
  \<^verbatim>\<open>current_backoff > time.time()\<close>, so the backoff counts as active, and as 100.5 in
  \<^verbatim>\<open>remaining = current_backoff - time.time()\<close> and in the final assignment: the
  remaining duration is \<open>-0.5\<close>, the backoff \<open>-1\<close> second, and the deadline becomes 99.5.
  It is earlier than the deadline before the report and earlier than the clock, so the
  throttled service is not backed off at all.
\<close>

theorem report_moves_deadline_back:
  "RateLimiter 0 (Some [(''x'', PyInt 60)]) = Inr (limiter_x 5 0 100)
   \<and> report_rate_limit_error 40 40 40 ''x'' None (limiter_x 5 0 100) = limiter_x 5 100 100
   \<and> report_rate_limit_error (999 / 10) (1005 / 10) (1005 / 10) ''x'' None (limiter_x 5 100 100)
       = limiter_x 5 (995 / 10) 100
   \<and> backoff_get (limiter_x 5 (995 / 10) 100) ''x'' < backoff_get (limiter_x 5 100 100) ''x''
   \<and> backoff_get (limiter_x 5 (995 / 10) 100) ''x'' < 1005 / 10"
proof -
  have c: "RateLimiter 0 (Some [(''x'', PyInt 60)]) = Inr (limiter_x 5 0 100)"
    by (simp add: RateLimiter_def effective_limits_def TokenBucket_def MAX_WAITERS_PER_API_def
        Let_def)
  have r1: "report_rate_limit_error 40 40 40 ''x'' None (limiter_x 5 0 100)
              = limiter_x 5 100 100"
    by (simp add: report_rate_limit_error_def truthy_def backoff_get_def Let_def)
  have r2: "report_rate_limit_error (999 / 10) (1005 / 10) (1005 / 10) ''x'' None
              (limiter_x 5 100 100) = limiter_x 5 (995 / 10) 100"
    by (simp add: report_rate_limit_error_def truthy_def backoff_get_def Let_def)
  have d: "backoff_get (limiter_x 5 (995 / 10) 100) ''x'' < backoff_get (limiter_x 5 100 100) ''x''"
    by (simp add: backoff_get_def)
  have n: "backoff_get (limiter_x 5 (995 / 10) 100) ''x'' < 1005 / 10"
    by (simp add: backoff_get_def)
  from c r1 r2 d n show ?thesis by (intro conjI)
qed

text \<open>
  Claim C8 at \<open>retry_after = 0\<close>. The test \<^verbatim>\<open>if retry_after:\<close> treats a supplied \<open>0\<close> as
  absent, so the report takes the exponential branch: on an idle service at clock 1000
  the deadline becomes 1060, not \<open>1000 + 0\<close>. A supplied 30 gives 1030.
\<close>

theorem report_retry_after_zero_ignored:
  "report_rate_limit_error t_test t_remaining t_set api_name (Some 0) s
     = report_rate_limit_error t_test t_remaining t_set api_name None s
   \<and> backoff_until
       (report_rate_limit_error 1000 1000 1000 ''x'' (Some 0) (limiter_x 5 0 7)) ''x''
     = Some 1060
   \<and> backoff_until
       (report_rate_limit_error 1000 1000 1000 ''x'' (Some 30) (limiter_x 5 0 7)) ''x''
     = Some 1030"
  by (simp add: report_rate_limit_error_def truthy_def backoff_get_def)

subsection \<open>CryptoAPICache: key derivation, properties\<close>

lemma str_nat_nonempty: "str_nat n \<noteq> []"
  by (subst str_nat.simps) simp

lemma digit_char_inj: "a < 10 \<Longrightarrow> b < 10 \<Longrightarrow> digit_char a = digit_char b \<Longrightarrow> a = b"
proof -
  assume a: "a < 10" and b: "b < 10" and eq: "digit_char a = digit_char b"
  from eq have "of_char (char_of (48 + a) :: char) = (of_char (char_of (48 + b) :: char) :: nat)"
    by (simp add: digit_char_def)
  with a b show "a = b" by (simp add: of_char_of)
qed

lemma str_nat_inj: "str_nat a = str_nat b \<Longrightarrow> a = b"
proof (induction a arbitrary: b rule: str_nat.induct)
  case (1 n)
  show ?case
  proof (cases "n < 10")
    case small: True
    show ?thesis
    proof (cases "b < 10")
      case True
      with small "1.prems" show ?thesis
        by (simp add: str_nat.simps[of n] str_nat.simps[of b] digit_char_inj)
    next
      case False
      with small "1.prems" str_nat_nonempty[of "b div 10"] show ?thesis
        by (simp add: str_nat.simps[of n] str_nat.simps[of b])
    qed
  next
    case big: False
    show ?thesis
    proof (cases "b < 10")
      case True
      with big "1.prems" str_nat_nonempty[of "n div 10"] show ?thesis
        by (simp add: str_nat.simps[of n] str_nat.simps[of b])
    next
      case False
      with big "1.prems" have eq: "str_nat (n div 10) = str_nat (b div 10)"
        "digit_char (n mod 10) = digit_char (b mod 10)"
        by (simp_all add: str_nat.simps[of n] str_nat.simps[of b])
      from "1.IH"[OF big eq(1)] have d: "n div 10 = b div 10" .
      from eq(2) have m: "n mod 10 = b mod 10" by (intro digit_char_inj) simp_all
      from d m show ?thesis by (metis div_mult_mod_eq)
    qed
  qed
qed

lemma str_int_inj_nonneg: "0 \<le> a \<Longrightarrow> 0 \<le> b \<Longrightarrow> str_int a = str_int b \<Longrightarrow> a = b"
  using str_nat_inj[of "nat a" "nat b"] by (simp add: str_int_def)

lemma time_bucket_floor: "0 \<le> t \<Longrightarrow> time_bucket t = \<lfloor>t / 60\<rfloor> * 60"
  by (simp add: time_bucket_def py_int_def)

lemma time_bucket_nonneg: "0 \<le> t \<Longrightarrow> 0 \<le> time_bucket t"
  by (simp add: time_bucket_floor)

lemma dict_items_eq:
  assumes "distinct (map fst xs)" "distinct (map fst ys)" "set xs = set ys" "map fst xs = map fst ys"
  shows "xs = ys"
proof -
  have m: "map_of xs = map_of ys" using assms(1-3) by (simp add: map_of_inject_set)
  have r: "map (\<lambda>k. (k, the (map_of zs k))) (map fst zs) = zs"
    if d: "distinct (map fst zs)" for zs :: "('a \<times> 'b) list"
  proof -
    have "(fst e, the (map_of zs (fst e))) = e" if "e \<in> set zs" for e
    proof -
      from that have "(fst e, snd e) \<in> set zs" by simp
      with d have "map_of zs (fst e) = Some (snd e)" by (simp only: map_of_eq_Some_iff)
      then show ?thesis by simp
    qed
    then have "map (\<lambda>e. (fst e, the (map_of zs (fst e)))) zs = zs" by (intro map_idI)
    then show ?thesis by (simp add: comp_def)
  qed
  from r[OF assms(1)] r[OF assms(2)] m assms(4) show ?thesis by metis
qed

lemma sort_key_dict:
  fixes p q :: "(string \<times> 'v) list"
  assumes "distinct (map fst p)" "distinct (map fst q)" "set p = set q"
  shows "sort_key fst p = sort_key fst q"
proof -
  have keys: "map fst (sort_key fst p) = map fst (sort_key fst q)"
  proof (rule sorted_distinct_set_unique)
    show "sorted (map fst (sort_key fst p))" "sorted (map fst (sort_key fst q))"
      by (rule sorted_sort_key)+
    show "distinct (map fst (sort_key fst p))" using assms(1)
      by (simp add: distinct_map)
    show "distinct (map fst (sort_key fst q))" using assms(2)
      by (simp add: distinct_map)
    show "set (map fst (sort_key fst p)) = set (map fst (sort_key fst q))"
      using assms(3) by simp
  qed
  show ?thesis
  proof (rule dict_items_eq[OF _ _ _ keys])
    show "distinct (map fst (sort_key fst p))" using assms(1) by (simp add: distinct_map)
    show "distinct (map fst (sort_key fst q))" using assms(2) by (simp add: distinct_map)
    show "set (sort_key fst p) = set (sort_key fst q)" using assms(3) by simp
  qed
qed

lemma cache_data_params_order:
  fixes p q :: "(string \<times> 'v) list"
  assumes "distinct (map fst p)" "distinct (map fst q)" "set p = set q"
  shows "cache_data J now e (Some p) = cache_data J now e (Some q)"
proof -
  have s: "sort_key fst p = sort_key fst q" using assms by (rule sort_key_dict)
  have n: "p = [] \<longleftrightarrow> q = []" using assms(3) by auto
  have "(case Some p of None \<Rightarrow> [] | Some [] \<Rightarrow> [] | Some l \<Rightarrow> l) = p" by (cases p) simp_all
  moreover have "(case Some q of None \<Rightarrow> [] | Some [] \<Rightarrow> [] | Some l \<Rightarrow> l) = q" by (cases q) simp_all
  ultimately show ?thesis unfolding cache_data_def Let_def by (simp only: s)
qed

lemma cache_data_same_bucket:
  assumes "0 \<le> t1" "0 \<le> t2" "\<lfloor>t1 / 60\<rfloor> = \<lfloor>t2 / 60\<rfloor>"
  shows "cache_data J t1 e params = cache_data J t2 e params"
proof -
  have "time_bucket t1 = time_bucket t2" using assms by (simp add: time_bucket_floor)
  then show ?thesis by (simp add: cache_data_def Let_def)
qed

lemma cache_data_other_bucket:
  assumes "is_live e" "0 \<le> t1" "0 \<le> t2" "\<lfloor>t1 / 60\<rfloor> \<noteq> \<lfloor>t2 / 60\<rfloor>"
  shows "cache_data J t1 e params \<noteq> cache_data J t2 e params"
proof
  assume "cache_data J t1 e params = cache_data J t2 e params"
  with assms(1) have "str_int (time_bucket t1) = str_int (time_bucket t2)"
    by (simp add: cache_data_def Let_def)
  then have "time_bucket t1 = time_bucket t2"
    using time_bucket_nonneg assms(2,3) by (intro str_int_inj_nonneg)
  with assms(2-4) show False by (simp add: time_bucket_floor)
qed

lemma cache_data_not_live:
  assumes "\<not> is_live e"
  shows "cache_data J t1 e params = cache_data J t2 e params"
  using assms by (simp add: cache_data_def Let_def)

text \<open>
  Claim C5. The hash and the JSON encoder are parameters \<open>H\<close> and \<open>J\<close>. (1) Two parameter
  dicts that are equal as sets of (name, value) pairs derive the same key. (2) For a live
  endpoint (one containing \<open>price\<close> or \<open>markets\<close>), two derivations at clock reads
  \<open>t1, t2 \<ge> 0\<close> in the same 60-second bucket derive the same key. (3) In different
  buckets, so in adjacent ones, the hashed strings differ, and so do the keys for every
  hash that is injective; for SHA-256 the keys differ unless the two strings collide.
  (4) A non-live endpoint derives the same key at any two times.
\<close>

theorem cache_key_derivation:
  fixes p q :: "(string \<times> 'v) list"
  shows
  "(distinct (map fst p) \<and> distinct (map fst q) \<and> set p = set q \<longrightarrow>
      generate_cache_key H J now e (Some p) = generate_cache_key H J now e (Some q))
   \<and> (is_live e \<and> 0 \<le> t1 \<and> 0 \<le> t2 \<and> \<lfloor>t1 / 60\<rfloor> = \<lfloor>t2 / 60\<rfloor> \<longrightarrow>
        generate_cache_key H J t1 e params = generate_cache_key H J t2 e params)
   \<and> (is_live e \<and> 0 \<le> t1 \<and> 0 \<le> t2 \<and> \<lfloor>t1 / 60\<rfloor> \<noteq> \<lfloor>t2 / 60\<rfloor> \<longrightarrow>
        cache_data J t1 e params \<noteq> cache_data J t2 e params
        \<and> (inj H \<longrightarrow> generate_cache_key H J t1 e params \<noteq> generate_cache_key H J t2 e params))
   \<and> (\<not> is_live e \<longrightarrow>
        generate_cache_key H J t1 e params = generate_cache_key H J t2 e params)"
  using cache_data_params_order[of p q J now e] cache_data_same_bucket[of t1 t2 J e params]
    cache_data_other_bucket[of e t1 t2 J params] cache_data_not_live[of e J t1 params t2]
  by (auto simp: generate_cache_key_def dest: injD)

theorem cache_key_derivation_witness:
  "generate_cache_key toy_hash toy_json 125 ''simple/price'' (Some params_ab)
     = generate_cache_key toy_hash toy_json 125 ''simple/price'' (Some params_ba)
   \<and> is_live ''simple/price''
   \<and> generate_cache_key toy_hash toy_json 125 ''simple/price'' (Some params_ab)
     = generate_cache_key toy_hash toy_json 170 ''simple/price'' (Some params_ab)
   \<and> generate_cache_key toy_hash toy_json 125 ''simple/price'' (Some params_ab)
     \<noteq> generate_cache_key toy_hash toy_json 185 ''simple/price'' (Some params_ab)
   \<and> \<not> is_live ''coins/bitcoin/ohlc''
   \<and> generate_cache_key toy_hash toy_json 125 ''coins/bitcoin/ohlc'' (Some params_ab)
     = generate_cache_key toy_hash toy_json 185 ''coins/bitcoin/ohlc'' (Some params_ab)"
proof -
  have live: "is_live ''simple/price''" "\<not> is_live ''coins/bitcoin/ohlc''"
    by (simp_all add: is_live_def)
  have fl: "\<lfloor>(125::real) / 60\<rfloor> = \<lfloor>(170::real) / 60\<rfloor>"
    "\<lfloor>(125::real) / 60\<rfloor> \<noteq> \<lfloor>(185::real) / 60\<rfloor>"
    by simp_all
  have set: "set params_ab = set params_ba" by auto
  have inj: "inj toy_hash" by simp
  note w = cache_key_derivation[of params_ab params_ba toy_hash toy_json 125 _ _ _
      "Some params_ab"]
  have 1: "generate_cache_key toy_hash toy_json 125 ''simple/price'' (Some params_ab)
     = generate_cache_key toy_hash toy_json 125 ''simple/price'' (Some params_ba)"
    using w[of "''simple/price''" 125 170] set by simp
  have 2: "generate_cache_key toy_hash toy_json 125 ''simple/price'' (Some params_ab)
     = generate_cache_key toy_hash toy_json 170 ''simple/price'' (Some params_ab)"
    using w[of "''simple/price''" 125 170] live fl by simp
  have 3: "generate_cache_key toy_hash toy_json 125 ''simple/price'' (Some params_ab)
     \<noteq> generate_cache_key toy_hash toy_json 185 ''simple/price'' (Some params_ab)"
    using w[of "''simple/price''" 125 185] live fl inj by simp
  have 4: "generate_cache_key toy_hash toy_json 125 ''coins/bitcoin/ohlc'' (Some params_ab)
     = generate_cache_key toy_hash toy_json 185 ''coins/bitcoin/ohlc'' (Some params_ab)"
    using w[of "''coins/bitcoin/ohlc''" 125 185] live by simp
  from 1 live 2 3 4 show ?thesis by (intro conjI)
qed

end
